theory Spec2Isabelle
  imports Complex_Main "HOL-Library.Multiset" "HOL-Library.Word"
begin

unbundle bit_operations_syntax

section \<open>The duplex split engine of dorado (DuplexSplitNode.cpp)\<close>

text \<open>
  Positions (\<open>uint64_t\<close>, \<open>size_t\<close>) are natural numbers; where a sum or a difference
  of positions and settings can leave the 64-bit range, the wrap-around is written out with
  \<open>u64\<close> and \<open>usub\<close>. An \<open>assert\<close> that fails, a read outside a container and an
  exception that leaves the function are error values.
\<close>

type_synonym PosRange = "nat \<times> nat"
type_synonym PosRanges = "PosRange list"

datatype error =
    AssertionFailed | OutOfRange | InvalidArgument | BadVariantAccess
  | DivisionByZero | UndefinedBehaviour

definition u64 :: "nat \<Rightarrow> nat" where
  "u64 n = n mod 2 ^ 64"

subsection \<open>Range algebra\<close>

text \<open>
  \<open>std::copy_if\<close> with a predicate that may abort (the predicates of the split finders
  contain assertions): the ranges are tested in order and the first abort ends the copy.
\<close>

fun filter_ranges :: "PosRanges \<Rightarrow> (PosRange \<Rightarrow> error + bool) \<Rightarrow> error + PosRanges" where
  "filter_ranges [] filter_f = Inr []"
| "filter_ranges (r # ranges) filter_f =
     (case filter_f r of
        Inl e \<Rightarrow> Inl e
      | Inr keep \<Rightarrow>
          (case filter_ranges ranges filter_f of
             Inl e \<Rightarrow> Inl e
           | Inr filtered \<Rightarrow> Inr (if keep then r # filtered else filtered)))"

text \<open>
  One iteration of the loop of \<open>merge_ranges\<close> on the vector \<open>merged\<close>: the assertion, then
  either \<open>push_back\<close> or the update of \<open>merged.back().second\<close>.
\<close>

definition merge_step :: "nat \<Rightarrow> PosRanges \<Rightarrow> PosRange \<Rightarrow> error + PosRanges" where
  "merge_step merge_dist merged r =
     (if \<not> (merged = [] \<or> fst r \<ge> fst (last merged)) then Inl AssertionFailed
      else if merged = [] \<or> fst r > u64 (snd (last merged) + merge_dist)
        then Inr (merged @ [r])
        else Inr (butlast merged @ [(fst (last merged), snd r)]))"

fun merge_loop :: "nat \<Rightarrow> PosRanges \<Rightarrow> PosRanges \<Rightarrow> error + PosRanges" where
  "merge_loop merge_dist merged [] = Inr merged"
| "merge_loop merge_dist merged (r # rs) =
     (case merge_step merge_dist merged r of
        Inl e \<Rightarrow> Inl e
      | Inr merged' \<Rightarrow> merge_loop merge_dist merged' rs)"

definition merge_ranges :: "PosRanges \<Rightarrow> nat \<Rightarrow> error + PosRanges" where
  "merge_ranges ranges merge_dist = merge_loop merge_dist [] ranges"

text \<open>Running \<open>merge_ranges\<close> on its own result, with the abort of the first run kept.\<close>

definition merge_twice :: "PosRanges \<Rightarrow> nat \<Rightarrow> error + PosRanges" where
  "merge_twice ranges merge_dist =
     (case merge_ranges ranges merge_dist of
        Inl e \<Rightarrow> Inl e
      | Inr merged \<Rightarrow> merge_ranges merged merge_dist)"

subsection \<open>Pore-signal detector\<close>

text \<open>
  The body of the loop of \<open>detect_pore_signal\<close> at index \<open>i\<close>, on the variables
  \<open>start\<close>, \<open>end\<close> and \<open>ans\<close>. The samples are floats and the only operation on them is
  the comparison with the threshold, so the sample type is any type with an order relation.
\<close>

definition detect_step ::
  "('a :: ord) list \<Rightarrow> 'a \<Rightarrow> nat \<Rightarrow> nat \<times> nat \<times> PosRanges \<Rightarrow> nat \<Rightarrow> nat \<times> nat \<times> PosRanges" where
  "detect_step pore_a threshold cluster_dist st i =
     (case st of (start, endp, ans) \<Rightarrow>
        if pore_a ! i > threshold then
          (if endp = 0 \<or> i > u64 (endp + cluster_dist)
           then (i, i + 1, if endp > 0 then ans @ [(start, endp)] else ans)
           else (start, i + 1, ans))
        else (start, endp, ans))"

definition detect_pore_signal ::
  "('a :: ord) list \<Rightarrow> 'a \<Rightarrow> nat \<Rightarrow> nat \<Rightarrow> error + PosRanges" where
  "detect_pore_signal signal threshold cluster_dist ignore_prefix =
     (case foldl (detect_step signal threshold cluster_dist) (0, 0, [])
             [ignore_prefix ..< length signal] of
        (start, endp, ans) \<Rightarrow>
          if start < length signal \<and> endp \<le> length signal
          then Inr (if endp > 0 then ans @ [(start, endp)] else ans)
          else Inl AssertionFailed)"

subsection \<open>Derived identifiers\<close>

type_synonym byte = "8 word"

text \<open>
  The streaming interface of the hash: the context is the sequence of bytes fed so far, and
  \<open>SHA256_Final\<close> writes the 32 bytes of the digest of that sequence. The digest itself
  (OpenSSL's SHA-256) is a parameter: \<open>sha256 m i\<close> is byte \<open>i\<close> of the digest of \<open>m\<close>.
\<close>

definition SHA256_Init :: "string" where
  "SHA256_Init = []"

definition SHA256_Update :: "string \<Rightarrow> string \<Rightarrow> string" where
  "SHA256_Update ctx data = ctx @ data"

definition SHA256_Final :: "(string \<Rightarrow> nat \<Rightarrow> byte) \<Rightarrow> string \<Rightarrow> byte list" where
  "SHA256_Final sha256 ctx = map (sha256 ctx) [0 ..< 32]"

text \<open>
  What the stream prints for \<open>std::hex << std::setw(2) << std::setfill('0') << int\<close>: the
  number in lowercase hexadecimal without leading zeros, filled on the left to width 2.
\<close>

definition hex_digit :: "nat \<Rightarrow> char" where
  "hex_digit d = ''0123456789abcdef'' ! d"

function to_hex :: "nat \<Rightarrow> string" where
  "to_hex n = (if n < 16 then [hex_digit n] else to_hex (n div 16) @ [hex_digit (n mod 16)])"
  by pat_completeness auto
termination
  by (relation "measure (\<lambda>n. n)") auto

definition setw_setfill :: "nat \<Rightarrow> char \<Rightarrow> string \<Rightarrow> string" where
  "setw_setfill w c str = replicate (w - length str) c @ str"

definition uuid_byte_str :: "byte list \<Rightarrow> nat \<Rightarrow> string" where
  "uuid_byte_str truncated_hash i =
     setw_setfill 2 (CHR ''0'') (to_hex (unat (truncated_hash ! i)))
     @ (if i = 3 \<or> i = 5 \<or> i = 7 \<or> i = 9 then ''-'' else [])"

definition derive_uuid :: "(string \<Rightarrow> nat \<Rightarrow> byte) \<Rightarrow> string \<Rightarrow> string \<Rightarrow> string" where
  "derive_uuid sha256 input_uuid desc =
     (let sha256_ctx = SHA256_Update (SHA256_Update SHA256_Init input_uuid) desc;
          hash = SHA256_Final sha256 sha256_ctx;
          truncated_hash = take 16 hash;
          truncated_hash = truncated_hash[6 := (truncated_hash ! 6 AND 0x0F) OR 0x40];
          truncated_hash = truncated_hash[8 := (truncated_hash ! 8 AND 0x3F) OR 0x80]
      in concat (map (uuid_byte_str truncated_hash) [0 ..< length truncated_hash]))"

subsection \<open>Timestamps\<close>

text \<open>
  \<open>time_t\<close> is a signed integer: \<open>/\<close> and \<open>%\<close> truncate towards zero. The calendar
  functions of the C library are parameters: \<open>gmtime_strftime s\<close> is the text that
  \<open>strftime\<close> writes with the format \<open>%Y-%m-%dT%H:%M:%S.\<close> for \<open>gmtime\<close> of the second
  count \<open>s\<close>, and \<open>strptime_mktime t\<close> is the second count that \<open>mktime\<close> returns for the
  fields that \<open>strptime\<close> reads with the same format from the front of \<open>t\<close>.
\<close>

definition c_div :: "int \<Rightarrow> int \<Rightarrow> int" where
  "c_div a b = sgn a * sgn b * (\<bar>a\<bar> div \<bar>b\<bar>)"

definition c_mod :: "int \<Rightarrow> int \<Rightarrow> int" where
  "c_mod a b = a - b * c_div a b"

definition dec_digit :: "nat \<Rightarrow> char" where
  "dec_digit d = ''0123456789'' ! d"

function dec_digits :: "nat \<Rightarrow> string" where
  "dec_digits n =
     (if n < 10 then [dec_digit n] else dec_digits (n div 10) @ [dec_digit (n mod 10)])"
  by pat_completeness auto
termination
  by (relation "measure (\<lambda>n. n)") auto

text \<open>\<open>std::to_string\<close> of an \<open>int\<close>.\<close>

definition to_string :: "int \<Rightarrow> string" where
  "to_string i = (if i < 0 then CHR ''-'' # dec_digits (nat (- i)) else dec_digits (nat i))"

definition get_string_timestamp_from_unix_time :: "(int \<Rightarrow> string) \<Rightarrow> int \<Rightarrow> string" where
  "get_string_timestamp_from_unix_time gmtime_strftime time_stamp_ms =
     (let time_stamp_s = c_div time_stamp_ms 1000;
          num_ms = c_mod time_stamp_ms 1000;
          time_stamp_str = gmtime_strftime time_stamp_s;
          time_stamp_str = time_stamp_str @ to_string num_ms;
          time_stamp_str = time_stamp_str @ ''+00:00''
      in time_stamp_str)"

text \<open>
  \<open>std::string::substr\<close> throws when the position is past the end; the count is a
  \<open>size_t\<close>. \<open>std::stoi\<close> skips white space, reads a sign and decimal digits, throws when
  there is no digit or the value is not an \<open>int\<close>, and ignores what follows the digits.
\<close>

definition substr :: "string \<Rightarrow> nat \<Rightarrow> nat \<Rightarrow> error + string" where
  "substr s pos n = (if pos > length s then Inl OutOfRange else Inr (take n (drop pos s)))"

definition is_space :: "char \<Rightarrow> bool" where
  "is_space c \<longleftrightarrow> c \<in> set [CHR '' '', CHR 0x09, CHR 0x0A, CHR 0x0B, CHR 0x0C, CHR 0x0D]"

definition is_digit :: "char \<Rightarrow> bool" where
  "is_digit c \<longleftrightarrow> c \<in> set ''0123456789''"

definition digit_val :: "char \<Rightarrow> int" where
  "digit_val c = of_char c - 48"

definition stoi :: "string \<Rightarrow> error + int" where
  "stoi str =
     (let s1 = dropWhile is_space str;
          neg = (s1 \<noteq> [] \<and> hd s1 = CHR ''-'');
          s2 = (if s1 \<noteq> [] \<and> (hd s1 = CHR ''-'' \<or> hd s1 = CHR ''+'') then tl s1 else s1);
          ds = takeWhile is_digit s2;
          v = foldl (\<lambda>a c. 10 * a + digit_val c) 0 ds;
          v = (if neg then - v else v)
      in if ds = [] then Inl InvalidArgument
         else if v < - (2 ^ 31) \<or> v > 2 ^ 31 - 1 then Inl OutOfRange
         else Inr v)"

definition get_unix_time_from_string_timestamp :: "(string \<Rightarrow> int) \<Rightarrow> string \<Rightarrow> error + int" where
  "get_unix_time_from_string_timestamp strptime_mktime time_stamp =
     (case substr time_stamp 20 (u64 (length time_stamp + 2 ^ 64 - 26)) of
        Inl e \<Rightarrow> Inl e
      | Inr field \<Rightarrow>
          (case stoi field of
             Inl e \<Rightarrow> Inl e
           | Inr num_ms \<Rightarrow> Inr (strptime_mktime time_stamp * 1000 + num_ms)))"

definition adjust_time_ms ::
  "(int \<Rightarrow> string) \<Rightarrow> (string \<Rightarrow> int) \<Rightarrow> string \<Rightarrow> nat \<Rightarrow> error + string" where
  "adjust_time_ms gmtime_strftime strptime_mktime time_stamp offset_ms =
     (case get_unix_time_from_string_timestamp strptime_mktime time_stamp of
        Inl e \<Rightarrow> Inl e
      | Inr t \<Rightarrow> Inr (get_string_timestamp_from_unix_time gmtime_strftime (t + int offset_ms)))"

text \<open>Formatting what was parsed.\<close>

definition format_of_parse :: "(int \<Rightarrow> string) \<Rightarrow> (string \<Rightarrow> int) \<Rightarrow> string \<Rightarrow> error + string" where
  "format_of_parse gmtime_strftime strptime_mktime t =
     (case get_unix_time_from_string_timestamp strptime_mktime t of
        Inl e \<Rightarrow> Inl e
      | Inr ms \<Rightarrow> Inr (get_string_timestamp_from_unix_time gmtime_strftime ms))"

subsection \<open>Reads and the subread factory\<close>

text \<open>
  The fields of \<open>Read\<close> that the file uses (the structure is declared in ReadPipeline.h).
  Samples are real numbers; \<open>base_mod_info\<close> is a shared pointer, modelled by a handle.
\<close>

record Attributes =
  read_number :: nat
  start_time :: string

record Read =
  raw_data :: "real list"
  digitisation :: real
  range' :: real
  offset :: real
  sample_rate :: nat
  shift :: real
  scale :: real
  scaling :: real
  num_chunks :: nat
  num_modbase_chunks :: nat
  model_stride :: nat
  read_id :: string
  seq :: string
  qstring :: string
  moves :: "nat list"
  base_mod_probs :: "nat list"
  run_id :: string
  model_name :: string
  base_mod_info :: "nat option"
  num_trimmed_samples :: nat
  attributes :: Attributes
  parent_read_id :: string

text \<open>The libraries the file calls, as parameters of the model.\<close>

datatype EdlibAlignTask = EDLIB_TASK_DISTANCE | EDLIB_TASK_LOC

record EdlibAlignResult =
  status :: nat
  editDistance :: int
  startLocation :: nat
  endLocation :: nat

record libs =
  lib_sha256 :: "string \<Rightarrow> nat \<Rightarrow> byte"
  lib_gmtime_strftime :: "int \<Rightarrow> string"
  lib_strptime_mktime :: "string \<Rightarrow> int"
  lib_edlibAlign :: "string \<Rightarrow> string \<Rightarrow> int \<Rightarrow> EdlibAlignTask \<Rightarrow> EdlibAlignResult"
  lib_reverse_complement :: "string \<Rightarrow> string"

text \<open>\<open>copy_read\<close> copies the fields it lists; \<open>parent_read_id\<close> is not among them.\<close>

definition copy_read :: "Read \<Rightarrow> Read" where
  "copy_read read = read\<lparr>parent_read_id := []\<rparr>"

text \<open>\<open>move_cum_sums\<close>: \<open>ans[i] = ans[i-1] + moves[i]\<close>, starting from \<open>ans[0] = moves[0]\<close>.\<close>

fun cum_sums_from :: "nat \<Rightarrow> nat list \<Rightarrow> nat list" where
  "cum_sums_from prev [] = []"
| "cum_sums_from prev (m # ms) = (prev + m) # cum_sums_from (prev + m) ms"

definition move_cum_sums :: "nat list \<Rightarrow> nat list" where
  "move_cum_sums mvs = cum_sums_from 0 mvs"

text \<open>
  \<open>subread\<close>: the two assertions on the signal range, the copy with its new fields, the
  closing assertion. The slice of a tensor clamps its bounds; \<open>substr\<close> throws past the end;
  a vector built from an iterator pair that is reversed or leaves the vector is undefined.
  The offset in milliseconds is a quotient of doubles converted to \<open>uint64_t\<close>, here the
  integer quotient.
\<close>

definition subread :: "libs \<Rightarrow> Read \<Rightarrow> PosRange \<Rightarrow> PosRange \<Rightarrow> error + Read" where
  "subread l read seq_range signal_range =
     (let stride = model_stride read in
      if stride = 0 then Inl DivisionByZero
      else if \<not> (fst signal_range mod stride = 0) then Inl AssertionFailed
      else if \<not> (snd signal_range mod stride = 0
                 \<or> (snd signal_range = length (raw_data read)
                     \<and> snd seq_range = length (seq read))) then Inl AssertionFailed
      else
        let subread = copy_read read;
            subread_id = derive_uuid (lib_sha256 l) (read_id read)
                           (dec_digits (fst seq_range) @ ''-'' @ dec_digits (snd seq_range));
            subread = subread\<lparr>read_id := subread_id\<rparr>;
            subread = subread\<lparr>raw_data :=
                        take (snd signal_range - fst signal_range)
                          (drop (fst signal_range) (raw_data subread))\<rparr>;
            subread = subread\<lparr>attributes := (attributes subread)\<lparr>read_number := 2 ^ 32 - 1\<rparr>\<rparr>
        in
        case adjust_time_ms (lib_gmtime_strftime l) (lib_strptime_mktime l)
               (start_time (attributes subread))
               (((num_trimmed_samples subread + fst signal_range) * 1000)
                  div sample_rate subread) of
          Inl e \<Rightarrow> Inl e
        | Inr t \<Rightarrow>
            let subread = subread\<lparr>attributes := (attributes subread)\<lparr>start_time := t\<rparr>\<rparr>;
                subread = subread\<lparr>num_trimmed_samples := 0\<rparr>;
                len = u64 (snd seq_range + 2 ^ 64 - fst seq_range)
            in
            case substr (seq subread) (fst seq_range) len of
              Inl e \<Rightarrow> Inl e
            | Inr s \<Rightarrow>
                (case substr (qstring subread) (fst seq_range) len of
                   Inl e \<Rightarrow> Inl e
                 | Inr q \<Rightarrow>
                     if \<not> (fst signal_range div stride \<le> snd signal_range div stride
                            \<and> snd signal_range div stride \<le> length (moves subread))
                     then Inl UndefinedBehaviour
                     else
                       let subread = subread\<lparr>seq := s, qstring := q\<rparr>;
                           subread = subread\<lparr>moves :=
                              take (snd signal_range div stride - fst signal_range div stride)
                                (drop (fst signal_range div stride) (moves subread))\<rparr>
                       in
                       if \<not> (snd signal_range = length (raw_data read)
                              \<or> length (moves subread) * stride = length (raw_data subread))
                       then Inl AssertionFailed
                       else Inr subread))"

subsection \<open>The cut operation\<close>

text \<open>
  Modelled from the spec: \<open>utils::moves_to_map\<close> (utils/sequence_utils) is called by
  \<open>split\<close> and is not among the sources. The specification describes it: a 1 in \<open>moves\<close>
  marks the signal stride at which the next base was emitted, and the result is the ordered
  array whose entry \<open>i\<close> is the signal sample index of the \<open>i\<close>-th base boundary, with the
  last entry equal to \<open>signal_len\<close>; the last argument only reserves space.
\<close>

definition moves_to_map :: "nat list \<Rightarrow> nat \<Rightarrow> nat \<Rightarrow> nat \<Rightarrow> nat list" where
  "moves_to_map mvs block_stride signal_len reserve_size =
     map (\<lambda>i. i * block_stride) (filter (\<lambda>i. mvs ! i = 1) [0 ..< length mvs]) @ [signal_len]"

text \<open>A read of a vector by index; outside the vector it is undefined in the source.\<close>

definition vec_at :: "nat list \<Rightarrow> nat \<Rightarrow> error + nat" where
  "vec_at v i = (if i < length v then Inr (v ! i) else Inl OutOfRange)"

text \<open>
  The loop of \<open>split\<close> over the spacers with the variables \<open>start_pos\<close> and
  \<open>signal_start\<close>, followed by the assertion and the last subread.
\<close>

fun split_loop ::
  "libs \<Rightarrow> Read \<Rightarrow> nat list \<Rightarrow> nat \<Rightarrow> nat \<Rightarrow> PosRanges \<Rightarrow> Read list \<Rightarrow> error + Read list" where
  "split_loop l read seq_to_sig_map start_pos signal_start [] subreads =
     (case vec_at seq_to_sig_map (length (seq read)) of
        Inl e \<Rightarrow> Inl e
      | Inr m \<Rightarrow>
          if \<not> (length (raw_data read) = m) then Inl AssertionFailed
          else
            (case subread l read (start_pos, length (seq read))
                    (signal_start, length (raw_data read)) of
               Inl e \<Rightarrow> Inl e
             | Inr sr \<Rightarrow> Inr (subreads @ [sr])))"
| "split_loop l read seq_to_sig_map start_pos signal_start (r # spacers) subreads =
     (case vec_at seq_to_sig_map (fst r) of
        Inl e \<Rightarrow> Inl e
      | Inr signal_end \<Rightarrow>
          (case subread l read (start_pos, fst r) (signal_start, signal_end) of
             Inl e \<Rightarrow> Inl e
           | Inr sr \<Rightarrow>
               (case vec_at seq_to_sig_map (snd r) of
                  Inl e \<Rightarrow> Inl e
                | Inr signal_start' \<Rightarrow>
                    split_loop l read seq_to_sig_map (snd r) signal_start' spacers
                      (subreads @ [sr]))))"

definition split :: "libs \<Rightarrow> Read \<Rightarrow> PosRanges \<Rightarrow> error + Read list" where
  "split l read spacers =
     (if spacers = [] then Inr [read]
      else
        let seq_to_sig_map = moves_to_map (moves read) (model_stride read)
                               (length (raw_data read)) (length (seq read) + 1)
        in
        case vec_at seq_to_sig_map 0 of
          Inl e \<Rightarrow> Inl e
        | Inr signal_start \<Rightarrow> split_loop l read seq_to_sig_map 0 signal_start spacers [])"

text \<open>
  The arguments of the calls of \<open>subread\<close> that the loop of \<open>split\<close> makes, in order: the
  same loop on \<open>start_pos\<close> and \<open>signal_start\<close> without the calls themselves.
\<close>

fun split_calls_loop ::
  "Read \<Rightarrow> nat list \<Rightarrow> nat \<Rightarrow> nat \<Rightarrow> PosRanges \<Rightarrow> error + (PosRange \<times> PosRange) list" where
  "split_calls_loop read seq_to_sig_map start_pos signal_start [] =
     (case vec_at seq_to_sig_map (length (seq read)) of
        Inl e \<Rightarrow> Inl e
      | Inr m \<Rightarrow>
          if \<not> (length (raw_data read) = m) then Inl AssertionFailed
          else Inr [((start_pos, length (seq read)), (signal_start, length (raw_data read)))])"
| "split_calls_loop read seq_to_sig_map start_pos signal_start (r # spacers) =
     (case vec_at seq_to_sig_map (fst r) of
        Inl e \<Rightarrow> Inl e
      | Inr signal_end \<Rightarrow>
          (case vec_at seq_to_sig_map (snd r) of
             Inl e \<Rightarrow> Inl e
           | Inr signal_start' \<Rightarrow>
               (case split_calls_loop read seq_to_sig_map (snd r) signal_start' spacers of
                  Inl e \<Rightarrow> Inl e
                | Inr calls \<Rightarrow> Inr (((start_pos, fst r), (signal_start, signal_end)) # calls))))"

definition split_calls :: "Read \<Rightarrow> PosRanges \<Rightarrow> error + (PosRange \<times> PosRange) list" where
  "split_calls read spacers =
     (let seq_to_sig_map = moves_to_map (moves read) (model_stride read)
                             (length (raw_data read)) (length (seq read) + 1)
      in
      case vec_at seq_to_sig_map 0 of
        Inl e \<Rightarrow> Inl e
      | Inr signal_start \<Rightarrow> split_calls_loop read seq_to_sig_map 0 signal_start spacers)"

subsection \<open>Settings, the extended read and the aligner\<close>

text \<open>
  The options of \<open>DuplexSplitSettings\<close> that the file reads (the structure is declared in
  DuplexSplitNode.h). \<open>DEBUG\<close> is the constant \<open>false\<close>: the model follows those branches.
\<close>

record DuplexSplitSettings =
  enabled :: bool
  simplex_mode :: bool
  pore_thr :: real
  pore_cl_dist :: nat
  relaxed_pore_thr :: real
  adapter_edist :: int
  relaxed_adapter_edist :: int
  pore_adapter_range :: nat
  expect_adapter_prefix :: nat
  expect_pore_prefix :: nat
  end_flank :: nat
  start_flank :: nat
  flank_edist :: int
  relaxed_flank_edist :: int
  adapter :: string
  end_trim :: nat
  middle_adapter_search_span :: nat

text \<open>
  \<open>ExtRead\<close> (fields \<open>read\<close>, \<open>data_as_float32\<close>, \<open>move_sums\<close>) and its constructor:
  \<open>move_sums.back()\<close> of an empty vector is undefined, then the assertion of the
  cumulative-sum invariant.
\<close>

record ExtRead =
  er_read :: Read
  er_data_as_float32 :: "real list"
  er_move_sums :: "nat list"

definition ExtRead_new :: "Read \<Rightarrow> error + ExtRead" where
  "ExtRead_new r =
     (let msums = move_cum_sums (moves r) in
      if msums = [] then Inl UndefinedBehaviour
      else if \<not> (last msums = length (seq r)) then Inl AssertionFailed
      else Inr \<lparr>er_read = r, er_data_as_float32 = raw_data r, er_move_sums = msums\<rparr>)"

text \<open>Subtraction of 64-bit positions, with its wrap-around.\<close>

definition usub :: "nat \<Rightarrow> nat \<Rightarrow> nat" where
  "usub a b = (a + 2 ^ 64 - b mod 2 ^ 64) mod 2 ^ 64"

definition EDLIB_STATUS_OK :: nat where
  "EDLIB_STATUS_OK = 0"

definition find_best_adapter_match ::
  "libs \<Rightarrow> string \<Rightarrow> string \<Rightarrow> int \<Rightarrow> PosRange option \<Rightarrow> error + PosRange option" where
  "find_best_adapter_match l adapter_seq sq dist_thr subrange =
     (case subrange of
        None \<Rightarrow> Inl AssertionFailed
      | Some sr \<Rightarrow>
          if \<not> (fst sr \<le> snd sr \<and> snd sr \<le> length sq) then Inl AssertionFailed
          else
            let shift_by = fst sr; span = snd sr - fst sr in
            if span = 0 then Inr None
            else
              let edlib_result = lib_edlibAlign l adapter_seq (take span (drop shift_by sq))
                                   dist_thr EDLIB_TASK_LOC
              in
              if \<not> (status edlib_result = EDLIB_STATUS_OK) then Inl AssertionFailed
              else if editDistance edlib_result \<noteq> - 1 then
                (if \<not> (editDistance edlib_result \<le> dist_thr) then Inl AssertionFailed
                 else Inr (Some (u64 (startLocation edlib_result + shift_by),
                                 u64 (endLocation edlib_result + shift_by + 1))))
              else Inr None)"

definition find_adapter_matches ::
  "libs \<Rightarrow> string \<Rightarrow> string \<Rightarrow> int \<Rightarrow> PosRange option \<Rightarrow> error + PosRanges" where
  "find_adapter_matches l adapter_seq sq dist_thr opt_subrange =
     (let subrange = (case opt_subrange of Some sr \<Rightarrow> sr | None \<Rightarrow> (0, length sq)) in
      if \<not> (fst subrange \<le> snd subrange \<and> snd subrange \<le> length sq) then Inl AssertionFailed
      else
        case find_best_adapter_match l adapter_seq sq dist_thr (Some subrange) of
          Inl e \<Rightarrow> Inl e
        | Inr None \<Rightarrow> Inr []
        | Inr (Some best_match) \<Rightarrow> Inr [best_match])"

text \<open>
  \<open>check_rc_match\<close>: the two regions are read through raw pointers, so a region that leaves
  the sequence is undefined.
\<close>

definition check_rc_match :: "libs \<Rightarrow> string \<Rightarrow> PosRange \<Rightarrow> PosRange \<Rightarrow> int \<Rightarrow> error + bool" where
  "check_rc_match l sq templ_r compl_r dist_thr =
     (if \<not> (snd templ_r > fst templ_r \<and> snd compl_r > fst compl_r \<and> dist_thr \<ge> 0)
      then Inl AssertionFailed
      else if \<not> (snd templ_r \<le> length sq \<and> snd compl_r \<le> length sq) then Inl UndefinedBehaviour
      else
        let rc_compl = lib_reverse_complement l
                         (take (snd compl_r - fst compl_r) (drop (fst compl_r) sq));
            edlib_result = lib_edlibAlign l
                             (take (snd templ_r - fst templ_r) (drop (fst templ_r) sq))
                             rc_compl dist_thr EDLIB_TASK_DISTANCE
        in
        if \<not> (status edlib_result = EDLIB_STATUS_OK) then Inl AssertionFailed
        else
          let match = (editDistance edlib_result \<noteq> - 1) in
          if \<not> (\<not> match \<or> editDistance edlib_result \<le> dist_thr) then Inl AssertionFailed
          else Inr match)"

subsection \<open>Pore regions and the predicates of the split finders\<close>

text \<open>
  \<open>possible_pore_regions\<close>: the threshold in the scale of the raw signal is computed in
  floating point in the source and in real arithmetic here; the loop over the detected
  signal regions maps each to move indices and, through \<open>move_sums\<close>, to bases.
\<close>

fun pore_regions_loop :: "ExtRead \<Rightarrow> PosRanges \<Rightarrow> PosRanges \<Rightarrow> error + PosRanges" where
  "pore_regions_loop ext [] pore_regions = Inr pore_regions"
| "pore_regions_loop ext (pore_signal_region # rest) pore_regions =
     (if model_stride (er_read ext) = 0 then Inl DivisionByZero
      else
        let move_start = fst pore_signal_region div model_stride (er_read ext);
            move_end = snd pore_signal_region div model_stride (er_read ext)
        in
        if \<not> (move_end \<ge> move_start) then Inl AssertionFailed
        else if move_start \<ge> length (er_move_sums ext) \<or> move_end \<ge> length (er_move_sums ext)
                \<or> er_move_sums ext ! move_start = 0
          then pore_regions_loop ext rest pore_regions
        else
          let start_pos = er_move_sums ext ! move_start - 1;
              end_pos = er_move_sums ext ! move_end
          in
          if \<not> (end_pos > start_pos) then Inl AssertionFailed
          else pore_regions_loop ext rest (pore_regions @ [(start_pos, end_pos)]))"

definition possible_pore_regions ::
  "DuplexSplitSettings \<Rightarrow> ExtRead \<Rightarrow> real \<Rightarrow> error + PosRanges" where
  "possible_pore_regions m_settings ext thr =
     (case detect_pore_signal (er_data_as_float32 ext)
             ((thr - shift (er_read ext)) / scale (er_read ext))
             (pore_cl_dist m_settings) (expect_pore_prefix m_settings) of
        Inl e \<Rightarrow> Inl e
      | Inr regions \<Rightarrow> pore_regions_loop ext regions [])"

definition check_nearby_adapter ::
  "libs \<Rightarrow> DuplexSplitSettings \<Rightarrow> Read \<Rightarrow> PosRange \<Rightarrow> int \<Rightarrow> error + bool" where
  "check_nearby_adapter l m_settings rd r edist =
     (case find_best_adapter_match l (adapter m_settings) (seq rd) edist
             (Some (fst r, min (u64 (snd r + pore_adapter_range m_settings)) (length (seq rd)))) of
        Inl e \<Rightarrow> Inl e
      | Inr res \<Rightarrow> Inr (res \<noteq> None))"

definition check_flank_match ::
  "libs \<Rightarrow> DuplexSplitSettings \<Rightarrow> Read \<Rightarrow> PosRange \<Rightarrow> int \<Rightarrow> error + bool" where
  "check_flank_match l m_settings rd r dist_thr =
     (if fst r \<ge> end_flank m_settings
         \<and> u64 (snd r + start_flank m_settings) \<le> length (seq rd)
      then check_rc_match l (seq rd)
             (usub (fst r) (end_flank m_settings), usub (fst r) (end_trim m_settings))
             (fst r, u64 (snd r + start_flank m_settings)) dist_thr
      else Inr False)"

definition identify_extra_middle_split ::
  "libs \<Rightarrow> DuplexSplitSettings \<Rightarrow> Read \<Rightarrow> error + PosRange option" where
  "identify_extra_middle_split l m_settings rd =
     (let r_l = length (seq rd) in
      if r_l < u64 (end_flank m_settings + start_flank m_settings)
         \<or> r_l < middle_adapter_search_span m_settings then Inr None
      else
        case find_best_adapter_match l (adapter m_settings) (seq rd)
               (relaxed_adapter_edist m_settings)
               (Some (usub (r_l div 2) (middle_adapter_search_span m_settings div 2),
                      u64 (r_l div 2 + middle_adapter_search_span m_settings div 2))) of
          Inl e \<Rightarrow> Inl e
        | Inr None \<Rightarrow> Inr None
        | Inr (Some adapter_match) \<Rightarrow>
            let adapter_start = fst adapter_match in
            (case check_flank_match l m_settings rd (adapter_start, adapter_start)
                    (relaxed_flank_edist m_settings) of
               Inl e \<Rightarrow> Inl e
             | Inr False \<Rightarrow> Inr None
             | Inr True \<Rightarrow>
                 (case check_rc_match l (seq rd)
                         (usub r_l (end_flank m_settings), usub r_l (end_trim m_settings))
                         (0, start_flank m_settings) (relaxed_flank_edist m_settings) of
                    Inl e \<Rightarrow> Inl e
                  | Inr False \<Rightarrow> Inr None
                  | Inr True \<Rightarrow> Inr (Some (usub adapter_start 1, adapter_start)))))"

subsection \<open>The split finders\<close>

type_synonym SplitFinderF = "ExtRead \<Rightarrow> error + PosRanges"

definition PORE_ADAPTER :: "libs \<Rightarrow> DuplexSplitSettings \<Rightarrow> SplitFinderF" where
  "PORE_ADAPTER l m_settings ext =
     (case possible_pore_regions m_settings ext (pore_thr m_settings) of
        Inl e \<Rightarrow> Inl e
      | Inr regions \<Rightarrow>
          filter_ranges regions
            (\<lambda>r. check_nearby_adapter l m_settings (er_read ext) r (adapter_edist m_settings)))"

definition PORE_FLANK :: "libs \<Rightarrow> DuplexSplitSettings \<Rightarrow> SplitFinderF" where
  "PORE_FLANK l m_settings ext =
     (case possible_pore_regions m_settings ext (pore_thr m_settings) of
        Inl e \<Rightarrow> Inl e
      | Inr regions \<Rightarrow>
          (case filter_ranges regions
                  (\<lambda>r. check_flank_match l m_settings (er_read ext) r (flank_edist m_settings)) of
             Inl e \<Rightarrow> Inl e
           | Inr filtered \<Rightarrow>
               merge_ranges filtered
                 (u64 (end_flank m_settings + start_flank m_settings))))"

definition PORE_ALL :: "libs \<Rightarrow> DuplexSplitSettings \<Rightarrow> SplitFinderF" where
  "PORE_ALL l m_settings ext =
     (case possible_pore_regions m_settings ext (relaxed_pore_thr m_settings) of
        Inl e \<Rightarrow> Inl e
      | Inr regions \<Rightarrow>
          (case filter_ranges regions
                  (\<lambda>r. case check_nearby_adapter l m_settings (er_read ext) r
                                (relaxed_adapter_edist m_settings) of
                          Inl e \<Rightarrow> Inl e
                        | Inr False \<Rightarrow> Inr False
                        | Inr True \<Rightarrow>
                            check_flank_match l m_settings (er_read ext) r
                              (relaxed_flank_edist m_settings)) of
             Inl e \<Rightarrow> Inl e
           | Inr filtered \<Rightarrow>
               merge_ranges filtered
                 (u64 (end_flank m_settings + start_flank m_settings))))"

definition ADAPTER_FLANK :: "libs \<Rightarrow> DuplexSplitSettings \<Rightarrow> SplitFinderF" where
  "ADAPTER_FLANK l m_settings ext =
     (case find_adapter_matches l (adapter m_settings) (seq (er_read ext))
             (adapter_edist m_settings)
             (Some (expect_adapter_prefix m_settings, length (seq (er_read ext)))) of
        Inl e \<Rightarrow> Inl e
      | Inr matches \<Rightarrow>
          filter_ranges matches
            (\<lambda>r. check_flank_match l m_settings (er_read ext) (fst r, fst r)
                    (flank_edist m_settings)))"

definition ADAPTER_MIDDLE :: "libs \<Rightarrow> DuplexSplitSettings \<Rightarrow> SplitFinderF" where
  "ADAPTER_MIDDLE l m_settings ext =
     (case identify_extra_middle_split l m_settings (er_read ext) of
        Inl e \<Rightarrow> Inl e
      | Inr (Some sp) \<Rightarrow> Inr [sp]
      | Inr None \<Rightarrow> Inr [])"

definition build_split_finders ::
  "libs \<Rightarrow> DuplexSplitSettings \<Rightarrow> (string \<times> SplitFinderF) list" where
  "build_split_finders l m_settings =
     [(''PORE_ADAPTER'', PORE_ADAPTER l m_settings)]
     @ (if \<not> simplex_mode m_settings
        then [(''PORE_FLANK'', PORE_FLANK l m_settings),
              (''PORE_ALL'', PORE_ALL l m_settings),
              (''ADAPTER_FLANK'', ADAPTER_FLANK l m_settings),
              (''ADAPTER_MIDDLE'', ADAPTER_MIDDLE l m_settings)]
        else [])"

subsection \<open>The worker\<close>

text \<open>
  A message is a read, a pair of reads or an alignment record (the variant is declared in
  ReadPipeline.h). The worker is modelled on the messages it pops, in order; the sink is the
  list of the messages pushed so far.
\<close>

datatype Message = MsgRead Read | MsgReadPair Read Read | MsgBam string

text \<open>\<open>split_round_result.emplace_back(sr)\<close> for each subread: the constructor may abort.\<close>

fun emplace_subreads :: "Read list \<Rightarrow> ExtRead list \<Rightarrow> error + ExtRead list" where
  "emplace_subreads [] split_round_result = Inr split_round_result"
| "emplace_subreads (sr # srs) split_round_result =
     (case ExtRead_new sr of
        Inl e \<Rightarrow> Inl e
      | Inr ext \<Rightarrow> emplace_subreads srs (split_round_result @ [ext]))"

text \<open>The inner loop over \<open>to_split\<close> for one split finder.\<close>

fun split_round :: "libs \<Rightarrow> SplitFinderF \<Rightarrow> ExtRead list \<Rightarrow> ExtRead list \<Rightarrow> error + ExtRead list" where
  "split_round l split_f [] split_round_result = Inr split_round_result"
| "split_round l split_f (r # to_split) split_round_result =
     (case split_f r of
        Inl e \<Rightarrow> Inl e
      | Inr spacers \<Rightarrow>
          if spacers = [] then split_round l split_f to_split (split_round_result @ [r])
          else
            (case split l (er_read r) spacers of
               Inl e \<Rightarrow> Inl e
             | Inr subreads \<Rightarrow>
                 (case emplace_subreads subreads split_round_result of
                    Inl e \<Rightarrow> Inl e
                  | Inr res \<Rightarrow> split_round l split_f to_split res)))"

text \<open>The outer loop over \<open>m_split_finders\<close>.\<close>

fun run_split_finders ::
  "libs \<Rightarrow> (string \<times> SplitFinderF) list \<Rightarrow> ExtRead list \<Rightarrow> error + ExtRead list" where
  "run_split_finders l [] to_split = Inr to_split"
| "run_split_finders l ((description, split_f) # finders) to_split =
     (case split_round l split_f to_split [] of
        Inl e \<Rightarrow> Inl e
      | Inr split_round_result \<Rightarrow> run_split_finders l finders split_round_result)"

text \<open>
  The body of the worker's loop for a read when the node is enabled: the reads pushed to
  the sink, each stamped with the identifier of the initial read.
\<close>

definition process_read ::
  "libs \<Rightarrow> (string \<times> SplitFinderF) list \<Rightarrow> Read \<Rightarrow> error + Read list" where
  "process_read l m_split_finders init_read =
     (case ExtRead_new init_read of
        Inl e \<Rightarrow> Inl e
      | Inr ext \<Rightarrow>
          (case run_split_finders l m_split_finders [ext] of
             Inl e \<Rightarrow> Inl e
           | Inr to_split \<Rightarrow>
               Inr (map (\<lambda>sr. (er_read sr)\<lparr>parent_read_id := read_id init_read\<rparr>) to_split)))"

fun worker_thread ::
  "libs \<Rightarrow> DuplexSplitSettings \<Rightarrow> (string \<times> SplitFinderF) list \<Rightarrow> Message list \<Rightarrow> Message list
     \<Rightarrow> error + Message list" where
  "worker_thread l m_settings m_split_finders [] m_sink = Inr m_sink"
| "worker_thread l m_settings m_split_finders (message # m_work_queue) m_sink =
     (if \<not> enabled m_settings
      then worker_thread l m_settings m_split_finders m_work_queue (m_sink @ [message])
      else
        case message of
          MsgRead init_read \<Rightarrow>
            (case process_read l m_split_finders init_read of
               Inl e \<Rightarrow> Inl e
             | Inr subreads \<Rightarrow>
                 worker_thread l m_settings m_split_finders m_work_queue
                   (m_sink @ map MsgRead subreads))
        | _ \<Rightarrow> Inl BadVariantAccess)"

text \<open>The node: its constructor stores \<open>build_split_finders()\<close> in \<open>m_split_finders\<close>.\<close>

definition DuplexSplitNode_worker ::
  "libs \<Rightarrow> DuplexSplitSettings \<Rightarrow> Message list \<Rightarrow> error + Message list" where
  "DuplexSplitNode_worker l m_settings m_work_queue =
     worker_thread l m_settings (build_split_finders l m_settings) m_work_queue []"

section \<open>Predicates of the statements, and the examples\<close>

text \<open>Neighbouring ranges of a merged vector: the later one was pushed, not merged.\<close>

definition apart :: "nat \<Rightarrow> PosRange \<Rightarrow> PosRange \<Rightarrow> bool" where
  "apart d a b \<longleftrightarrow> fst a \<le> fst b \<and> u64 (snd a + d) < fst b"

text \<open>Sample \<open>i\<close> is above the threshold; the properties of one interval and of the list of intervals over the first \<open>n\<close> samples; the invariant of the loop.\<close>

definition hot :: "('a :: ord) list \<Rightarrow> 'a \<Rightarrow> nat \<Rightarrow> bool" where
  "hot s T i \<longleftrightarrow> s ! i > T"

definition sep :: "('a :: ord) list \<Rightarrow> 'a \<Rightarrow> nat \<Rightarrow> PosRange \<Rightarrow> bool" where
  "sep s T D r \<longleftrightarrow>
     (\<forall>h1 h2. fst r \<le> h1 \<and> h1 < h2 \<and> h2 < snd r \<and> hot s T h1 \<and> hot s T h2
        \<and> (\<forall>k. h1 < k \<and> k < h2 \<longrightarrow> \<not> hot s T k) \<longrightarrow> h2 \<le> h1 + D + 1)"

definition cluster :: "('a :: ord) list \<Rightarrow> 'a \<Rightarrow> nat \<Rightarrow> nat \<Rightarrow> nat \<Rightarrow> PosRange \<Rightarrow> bool" where
  "cluster s T D P n r \<longleftrightarrow>
     P \<le> fst r \<and> fst r < snd r \<and> snd r \<le> n \<and> hot s T (fst r) \<and> hot s T (snd r - 1)
     \<and> sep s T D r"

definition clusters :: "('a :: ord) list \<Rightarrow> 'a \<Rightarrow> nat \<Rightarrow> nat \<Rightarrow> nat \<Rightarrow> PosRanges \<Rightarrow> bool" where
  "clusters s T D P n ivs \<longleftrightarrow>
     (\<forall>r \<in> set ivs. cluster s T D P n r)
     \<and> sorted_wrt (\<lambda>x y. snd x + D < fst y) ivs
     \<and> (\<forall>j. P \<le> j \<and> j < n \<and> hot s T j \<longrightarrow> (\<exists>r \<in> set ivs. fst r \<le> j \<and> j < snd r))"

definition detect_inv ::
  "('a :: ord) list \<Rightarrow> 'a \<Rightarrow> nat \<Rightarrow> nat \<Rightarrow> nat \<Rightarrow> nat \<times> nat \<times> PosRanges \<Rightarrow> bool" where
  "detect_inv s T D P i st =
     (case st of (start, endp, ans) \<Rightarrow>
        if endp = 0 then start = 0 \<and> ans = [] \<and> (\<forall>j. P \<le> j \<and> j < i \<longrightarrow> \<not> hot s T j)
        else clusters s T D P i (ans @ [(start, endp)])
             \<and> (\<forall>j. endp \<le> j \<and> j < i \<longrightarrow> \<not> hot s T j))"

text \<open>
  The identifier as the specification words it: the digest of the concatenation, cut to 16
  bytes, bytes 6 and 8 retagged, two lowercase hexadecimal digits a byte, hyphens after
  bytes 4, 6, 8 and 10.
\<close>

definition spec_hex2 :: "byte \<Rightarrow> string" where
  "spec_hex2 b = [hex_digit (unat b div 16), hex_digit (unat b mod 16)]"

definition spec_uuid_bytes :: "(string \<Rightarrow> nat \<Rightarrow> byte) \<Rightarrow> string \<Rightarrow> string \<Rightarrow> nat \<Rightarrow> byte" where
  "spec_uuid_bytes sha256 ident desc i =
     (if i = 6 then (sha256 (ident @ desc) 6 AND 0x0F) OR 0x40
      else if i = 8 then (sha256 (ident @ desc) 8 AND 0x3F) OR 0x80
      else sha256 (ident @ desc) i)"

definition spec_uuid :: "(string \<Rightarrow> nat \<Rightarrow> byte) \<Rightarrow> string \<Rightarrow> string \<Rightarrow> string" where
  "spec_uuid sha256 ident desc =
     concat (map (\<lambda>i. spec_hex2 (spec_uuid_bytes sha256 ident desc i)) [0 ..< 4]) @ ''-''
     @ concat (map (\<lambda>i. spec_hex2 (spec_uuid_bytes sha256 ident desc i)) [4 ..< 6]) @ ''-''
     @ concat (map (\<lambda>i. spec_hex2 (spec_uuid_bytes sha256 ident desc i)) [6 ..< 8]) @ ''-''
     @ concat (map (\<lambda>i. spec_hex2 (spec_uuid_bytes sha256 ident desc i)) [8 ..< 10]) @ ''-''
     @ concat (map (\<lambda>i. spec_hex2 (spec_uuid_bytes sha256 ident desc i)) [10 ..< 16])"

text \<open>
  The syntax of a version-4 identifier of RFC 4122: groups of 8, 4, 4, 4 and 12 lowercase
  hexadecimal digits between hyphens, the third group starting with 4 and the fourth with
  8, 9, a or b.
\<close>

definition is_hex :: "char \<Rightarrow> bool" where
  "is_hex c \<longleftrightarrow> c \<in> set ''0123456789abcdef''"

definition valid_uuid_v4 :: "string \<Rightarrow> bool" where
  "valid_uuid_v4 u \<longleftrightarrow>
     length u = 36
     \<and> u ! 8 = CHR ''-'' \<and> u ! 13 = CHR ''-'' \<and> u ! 18 = CHR ''-'' \<and> u ! 23 = CHR ''-''
     \<and> list_all is_hex (take 8 u) \<and> list_all is_hex (take 4 (drop 9 u))
     \<and> list_all is_hex (take 4 (drop 14 u)) \<and> list_all is_hex (take 4 (drop 19 u))
     \<and> list_all is_hex (drop 24 u)
     \<and> u ! 14 = CHR ''4'' \<and> u ! 19 \<in> set ''89ab''"

text \<open>
  The positions that a list of half-open ranges covers, with multiplicity. The data model
  of a read: a positive stride, a move vector of zeros and ones whose sum is the length of
  the sequence, and a signal of one stride a move, up to a ragged last stride. Spacers of a
  read of \<open>n\<close> bases: ranges \<open>first \<le> second \<le> n\<close>, each ending before every later one
  begins (sorted and disjoint).
\<close>

definition covered :: "PosRanges \<Rightarrow> nat multiset" where
  "covered rs = sum_list (map (\<lambda>r. mset [fst r ..< snd r]) rs)"

definition read_ok :: "Read \<Rightarrow> bool" where
  "read_ok read \<longleftrightarrow>
     0 < model_stride read
     \<and> set (moves read) \<subseteq> {0, 1}
     \<and> sum_list (moves read) = length (seq read)
     \<and> model_stride read * length (moves read) < length (raw_data read) + model_stride read
     \<and> length (raw_data read) < model_stride read * length (moves read) + model_stride read"

definition spacers_ok :: "nat \<Rightarrow> PosRanges \<Rightarrow> bool" where
  "spacers_ok n spacers \<longleftrightarrow>
     (\<forall>r \<in> set spacers. fst r \<le> snd r \<and> snd r \<le> n)
     \<and> sorted_wrt (\<lambda>a b. snd a \<le> fst b) spacers"


definition seq_to_sig :: "Read \<Rightarrow> nat list" where
  "seq_to_sig read = moves_to_map (moves read) (model_stride read)
                       (length (raw_data read)) (length (seq read) + 1)"

text \<open>A read for the examples; its fields are set where an example needs them.\<close>

definition read0 :: Read where
  "read0 = \<lparr>raw_data = [], digitisation = 8192, range' = 1400, offset = 0, sample_rate = 4000,
     shift = 0, scale = 1, scaling = 1, num_chunks = 0, num_modbase_chunks = 0,
     model_stride = 1, read_id = ''r1'', seq = [], qstring = [], moves = [],
     base_mod_probs = [], run_id = ''run'', model_name = ''model'', base_mod_info = None,
     num_trimmed_samples = 0,
     attributes = \<lparr>read_number = 1, start_time = ''2023-01-01T00:00:00.000+00:00''\<rparr>,
     parent_read_id = []\<rparr>"

text \<open>
  A read with a ragged last stride: stride 2, two moves, five samples. Library behaviours
  for the examples: a digest of zeros, a clock stuck at one text, an aligner that reports
  no match.
\<close>

definition read_ragged :: Read where
  "read_ragged = read0\<lparr>raw_data := [0, 0, 0, 0, 0], model_stride := 2, moves := [1, 1],
     seq := ''AC'', qstring := ''!!''\<rparr>"

definition libs0 :: libs where
  "libs0 = \<lparr>lib_sha256 = (\<lambda>m i. 0), lib_gmtime_strftime = (\<lambda>s. ''2023-01-01T00:00:00.''),
     lib_strptime_mktime = (\<lambda>t. 1672531200),
     lib_edlibAlign = (\<lambda>q t k task. \<lparr>status = 0, editDistance = - 1, startLocation = 0,
        endLocation = 0\<rparr>),
     lib_reverse_complement = rev\<rparr>"

text \<open>Settings for the examples: the node enabled, all five split finders.\<close>

definition settings0 :: DuplexSplitSettings where
  "settings0 = \<lparr>enabled = True, simplex_mode = False, pore_thr = 160, pore_cl_dist = 0,
     relaxed_pore_thr = 150, adapter_edist = 0, relaxed_adapter_edist = 0,
     pore_adapter_range = 100, expect_adapter_prefix = 0, expect_pore_prefix = 0,
     end_flank = 1200, start_flank = 1700, flank_edist = 150, relaxed_flank_edist = 250,
     adapter = ''AC'', end_trim = 200, middle_adapter_search_span = 1000\<rparr>"

text \<open>A read of two bases without pore signal, and its extended read.\<close>

definition read_plain :: Read where
  "read_plain = read0\<lparr>raw_data := [0, 0], moves := [1, 1], seq := ''AC'', qstring := ''!!''\<rparr>"

definition ext_plain :: ExtRead where
  "ext_plain = \<lparr>er_read = read_plain, er_data_as_float32 = [0, 0], er_move_sums = [1, 2]\<rparr>"

text \<open>
  A read with two pore clusters and no base emitted between them: samples above the
  threshold at 1 and 3, bases emitted at strides 0 and 5. The settings with the pore
  threshold one half, and libraries whose aligner reports an exact match at \<open>[0, 1]\<close>.
\<close>

definition read_two_pores :: Read where
  "read_two_pores = read0\<lparr>raw_data := [0, 1, 0, 1, 0, 0], moves := [1, 0, 0, 0, 0, 1],
     seq := ''AC'', qstring := ''!!''\<rparr>"

definition ext_two_pores :: ExtRead where
  "ext_two_pores = \<lparr>er_read = read_two_pores, er_data_as_float32 = [0, 1, 0, 1, 0, 0],
     er_move_sums = [1, 1, 1, 1, 1, 2]\<rparr>"

definition settings_half :: DuplexSplitSettings where
  "settings_half = settings0\<lparr>pore_thr := 1 / 2\<rparr>"

definition libs_match :: libs where
  "libs_match = libs0\<lparr>lib_edlibAlign :=
     (\<lambda>q t k task. \<lparr>status = 0, editDistance = 0, startLocation = 0, endLocation = 1\<rparr>)\<rparr>"

text \<open>Character \<open>x\<close> is the decimal digit of \<open>a\<close>, as \<open>std::stoi\<close> reads it.\<close>

definition digit_of :: "char \<Rightarrow> nat \<Rightarrow> bool" where
  "digit_of x a \<longleftrightarrow> a < 10 \<and> is_digit x \<and> \<not> is_space x \<and> x \<noteq> CHR ''-'' \<and> x \<noteq> CHR ''+''
     \<and> digit_val x = int a"

section \<open>Properties of the range algebra\<close>

lemma merge_step_apart:
  assumes "successively (apart d) merged" and "merge_step d merged r = Inr merged'"
  shows "successively (apart d) merged'"
proof (cases merged rule: rev_cases)
  case Nil
  with assms show ?thesis by (auto simp: merge_step_def)
next
  case (snoc ms l)
  show ?thesis
  proof (cases "fst r > u64 (snd l + d)")
    case True
    with assms snoc have "fst l \<le> fst r" and m': "merged' = ms @ [l] @ [r]"
      by (auto simp: merge_step_def split: if_splits)
    with True have "apart d l r" by (simp add: apart_def)
    with assms(1) snoc show ?thesis
      unfolding m' by (simp add: successively_append_iff)
  next
    case False
    with assms snoc have m': "merged' = ms @ [(fst l, snd r)]"
      by (auto simp: merge_step_def split: if_splits)
    from assms(1) snoc have "successively (apart d) (ms @ [l])" by simp
    then have "successively (apart d) (ms @ [(fst l, snd r)])"
      by (cases ms rule: rev_cases) (auto simp: successively_append_iff apart_def)
    then show ?thesis unfolding m' .
  qed
qed

lemma merge_loop_apart:
  "successively (apart d) merged \<Longrightarrow> merge_loop d merged rs = Inr out
     \<Longrightarrow> successively (apart d) out"
proof (induction rs arbitrary: merged)
  case Nil
  then show ?case by simp
next
  case (Cons r rs)
  then show ?case
    by (auto split: sum.splits dest: merge_step_apart)
qed

lemma merge_loop_fixed:
  "successively (apart d) (merged @ rs) \<Longrightarrow> merge_loop d merged rs = Inr (merged @ rs)"
proof (induction rs arbitrary: merged)
  case Nil
  then show ?case by simp
next
  case (Cons r rs)
  have step: "merge_step d merged r = Inr (merged @ [r])"
  proof (cases merged rule: rev_cases)
    case Nil
    then show ?thesis by (simp add: merge_step_def)
  next
    case (snoc ms l)
    with Cons.prems have "apart d l r"
      by (simp add: successively_append_iff)
    with snoc show ?thesis by (simp add: merge_step_def apart_def)
  qed
  from Cons.prems have "successively (apart d) ((merged @ [r]) @ rs)" by simp
  from Cons.IH [OF this] step show ?case by simp
qed


lemma merge_loop_no_assert:
  assumes "sorted (map fst (merged @ rs))"
    and "\<forall>a \<in> set (merged @ rs). snd a + d < 2 ^ 64"
  shows "\<exists>out. merge_loop d merged rs = Inr out \<and> sorted (map fst out)
           \<and> (\<forall>a \<in> set out. snd a + d < 2 ^ 64)"
  using assms
proof (induction rs arbitrary: merged)
  case Nil
  then show ?case by simp
next
  case (Cons r rs)
  show ?case
  proof (cases merged rule: rev_cases)
    case Nil
    then have "merge_step d merged r = Inr ([r])" by (simp add: merge_step_def)
    moreover from Cons.prems Nil have "sorted (map fst ([r] @ rs))"
      and "\<forall>a \<in> set ([r] @ rs). snd a + d < 2 ^ 64" by simp_all
    ultimately show ?thesis using Cons.IH [of "[r]"] by simp
  next
    case (snoc ms l)
    from Cons.prems(1) snoc have lr: "fst l \<le> fst r"
      by (simp add: sorted_append)
    show ?thesis
    proof (cases "fst r > u64 (snd l + d)")
      case True
      with snoc lr have "merge_step d merged r = Inr (merged @ [r])"
        by (simp add: merge_step_def)
      moreover from Cons.prems have "sorted (map fst ((merged @ [r]) @ rs))"
        and "\<forall>a \<in> set ((merged @ [r]) @ rs). snd a + d < 2 ^ 64" by simp_all
      ultimately show ?thesis using Cons.IH [of "merged @ [r]"] by simp
    next
      case False
      with snoc lr have "merge_step d merged r = Inr (ms @ [(fst l, snd r)])"
        by (simp add: merge_step_def)
      moreover from Cons.prems(1) snoc have "sorted (map fst ((ms @ [(fst l, snd r)]) @ rs))"
        by (auto simp: sorted_append)
      moreover from Cons.prems(2) snoc
      have "\<forall>a \<in> set ((ms @ [(fst l, snd r)]) @ rs). snd a + d < 2 ^ 64"
        by auto
      ultimately show ?thesis using Cons.IH [of "ms @ [(fst l, snd r)]"] by simp
    qed
  qed
qed

lemma apart_pairwise:
  "successively (apart d) xs \<Longrightarrow> sorted (map fst xs) \<Longrightarrow> \<forall>a \<in> set xs. snd a + d < 2 ^ 64
     \<Longrightarrow> sorted_wrt (\<lambda>a b. snd a + d < fst b) xs"
proof (induction xs rule: induct_list012)
  case 1
  then show ?case by simp
next
  case (2 x)
  then show ?case by simp
next
  case (3 x y zs)
  from "3.prems" have xy: "snd x + d < fst y"
    by (simp add: apart_def u64_def)
  from "3.prems" have "\<forall>z \<in> set zs. fst y \<le> fst z" by simp
  with xy have "\<forall>z \<in> set (y # zs). snd x + d < fst z" by auto
  moreover from 3 have "sorted_wrt (\<lambda>a b. snd a + d < fst b) (y # zs)" by simp
  ultimately show ?case by simp
qed

subsection \<open>Claim C5: merging ranges\<close>

text \<open>
  C5, as the claim states it, fails on 64-bit positions: with the merge distance
  \<open>2 ^ 64 - 3\<close> the sum \<open>merged.back().second + merge_dist\<close> wraps around to 2, the range
  starting at 3 is pushed, and the result of merging the sorted vector \<open>(0,5), (3,20)\<close> is that
  vector itself, whose ranges overlap.
\<close>

theorem C5_merge_overflow_counterexample:
  "sorted (map fst [(0 :: nat, 5 :: nat), (3, 20)])
   \<and> merge_ranges [(0, 5), (3, 20)] (2 ^ 64 - 3) = Inr [(0, 5), (3, 20)]
   \<and> \<not> sorted_wrt (\<lambda>a b. snd a \<le> fst b) [(0 :: nat, 5 :: nat), (3, 20)]"
  by (simp add: merge_ranges_def merge_step_def u64_def)

text \<open>
  C5, amended: \<open>merge_ranges\<close> is idempotent for every vector of ranges and every distance
  (an aborted first run stays aborted); and when the vector is sorted by first coordinate
  and no sum \<open>second + merge_dist\<close> leaves the 64-bit range, the result is sorted by first
  coordinate and every range ends more than \<open>merge_dist\<close> before each later range begins, so
  the ranges do not overlap.
\<close>

theorem C5_merge_ranges_idempotent_and_separated:
  "merge_twice R d = merge_ranges R d
   \<and> (sorted (map fst R) \<and> (\<forall>r \<in> set R. snd r + d < 2 ^ 64) \<longrightarrow>
        (\<exists>M. merge_ranges R d = Inr M \<and> sorted (map fst M)
           \<and> sorted_wrt (\<lambda>a b. snd a + d < fst b) M
           \<and> sorted_wrt (\<lambda>a b. snd a \<le> fst b) M))"
proof (intro conjI impI)
  show "merge_twice R d = merge_ranges R d"
  proof (cases "merge_ranges R d")
    case (Inl e)
    then show ?thesis by (simp add: merge_twice_def)
  next
    case (Inr M)
    then have "successively (apart d) M"
      using merge_loop_apart [of d "[]" R M] by (simp add: merge_ranges_def)
    then have "merge_ranges M d = Inr M"
      using merge_loop_fixed [of d "[]" M] by (simp add: merge_ranges_def)
    with Inr show ?thesis by (simp add: merge_twice_def)
  qed
next
  assume h: "sorted (map fst R) \<and> (\<forall>r \<in> set R. snd r + d < 2 ^ 64)"
  then obtain M where M: "merge_ranges R d = Inr M" "sorted (map fst M)"
      "\<forall>a \<in> set M. snd a + d < 2 ^ 64"
    using merge_loop_no_assert [of "[]" R d] by (auto simp: merge_ranges_def)
  from M(1) have "successively (apart d) M"
    using merge_loop_apart [of d "[]" R M] by (simp add: merge_ranges_def)
  with M have gap: "sorted_wrt (\<lambda>a b. snd a + d < fst b) M"
    by (simp add: apart_pairwise)
  have "sorted_wrt (\<lambda>a b. snd a \<le> fst b) M"
    by (rule sorted_wrt_mono_rel [OF _ gap]) simp
  with M gap show "\<exists>M. merge_ranges R d = Inr M \<and> sorted (map fst M)
           \<and> sorted_wrt (\<lambda>a b. snd a + d < fst b) M
           \<and> sorted_wrt (\<lambda>a b. snd a \<le> fst b) M"
    by blast
qed

theorem C5_merge_ranges_witness:
  "sorted (map fst [(0 :: nat, 5 :: nat), (3, 20), (40, 50)])
   \<and> (5 :: nat) + 10 < 2 ^ 64 \<and> (20 :: nat) + 10 < 2 ^ 64 \<and> (50 :: nat) + 10 < 2 ^ 64
   \<and> merge_twice [(0, 5), (3, 20), (40, 50)] 10 = Inr [(0, 20), (40, 50)]
   \<and> sorted_wrt (\<lambda>a b. snd a + 10 < fst b) [(0 :: nat, 20 :: nat), (40, 50)]"
  using C5_merge_ranges_idempotent_and_separated [of "[(0, 5), (3, 20), (40, 50)]" 10]
  by (simp add: merge_ranges_def merge_step_def u64_def)

section \<open>Properties of the pore-signal detector\<close>

lemma cluster_mono: "cluster s T D P i r \<Longrightarrow> i \<le> k \<Longrightarrow> cluster s T D P k r"
  by (auto simp: cluster_def)

lemma sep_extend:
  assumes "sep s T D (a, e)" and "hot s T (e - 1)" and "0 < e"
    and cold: "\<forall>j. e \<le> j \<and> j < i \<longrightarrow> \<not> hot s T j" and "i \<le> e + D"
  shows "sep s T D (a, i + 1)"
  unfolding sep_def
proof (intro allI impI)
  fix h1 h2
  assume h: "fst (a, i + 1) \<le> h1 \<and> h1 < h2 \<and> h2 < snd (a, i + 1) \<and> hot s T h1 \<and> hot s T h2
        \<and> (\<forall>k. h1 < k \<and> k < h2 \<longrightarrow> \<not> hot s T k)"
  show "h2 \<le> h1 + D + 1"
  proof (cases "h2 < e")
    case True
    with h assms(1) show ?thesis unfolding sep_def by auto
  next
    case False
    from h have "h2 \<le> i" by simp
    moreover from h False cold have "\<not> h2 < i" by auto
    ultimately have h2: "h2 = i" by simp
    from h cold h2 have "\<not> e \<le> h1" by auto
    then have "h1 < e" by simp
    moreover have "\<not> h1 < e - 1"
    proof
      assume "h1 < e - 1"
      moreover from False assms(3) have "e - 1 < h2" by simp
      ultimately have "\<not> hot s T (e - 1)" using h by blast
      with assms(2) show False by simp
    qed
    ultimately have "h1 = e - 1" by simp
    with assms(3,5) h2 show ?thesis by simp
  qed
qed


lemma sep_single: "sep s T D (i, Suc i)"
  by (auto simp: sep_def)

lemma clusters_cold_step:
  assumes "clusters s T D P i ivs" and "\<not> hot s T i"
  shows "clusters s T D P (Suc i) ivs"
proof -
  from assms(1) have "\<forall>r \<in> set ivs. cluster s T D P (Suc i) r"
    by (auto simp: clusters_def intro: cluster_mono)
  moreover have "\<forall>j. P \<le> j \<and> j < Suc i \<and> hot s T j \<longrightarrow> (\<exists>r \<in> set ivs. fst r \<le> j \<and> j < snd r)"
  proof (intro allI impI)
    fix j assume j: "P \<le> j \<and> j < Suc i \<and> hot s T j"
    with assms(2) have "j < i" by (cases "j = i") auto
    with j assms(1) show "\<exists>r \<in> set ivs. fst r \<le> j \<and> j < snd r"
      by (simp add: clusters_def)
  qed
  ultimately show ?thesis using assms(1) by (simp add: clusters_def)
qed

lemma clusters_push:
  assumes "clusters s T D P i ivs" and "hot s T i" and "P \<le> i"
    and far: "\<forall>r \<in> set ivs. snd r + D < i"
  shows "clusters s T D P (Suc i) (ivs @ [(i, Suc i)])"
proof -
  have new: "cluster s T D P (Suc i) (i, Suc i)"
    using assms(2,3) by (simp add: cluster_def sep_single)
  from assms(1) have old: "\<forall>r \<in> set ivs. cluster s T D P (Suc i) r"
    by (auto simp: clusters_def intro: cluster_mono)
  from assms(1) far have srt: "sorted_wrt (\<lambda>x y. snd x + D < fst y) (ivs @ [(i, Suc i)])"
    by (simp add: clusters_def sorted_wrt_append)
  have cov: "\<forall>j. P \<le> j \<and> j < Suc i \<and> hot s T j
               \<longrightarrow> (\<exists>r \<in> set (ivs @ [(i, Suc i)]). fst r \<le> j \<and> j < snd r)"
  proof (intro allI impI)
    fix j assume j: "P \<le> j \<and> j < Suc i \<and> hot s T j"
    show "\<exists>r \<in> set (ivs @ [(i, Suc i)]). fst r \<le> j \<and> j < snd r"
    proof (cases "j = i")
      case True
      then show ?thesis by simp
    next
      case False
      with j have "j < i" by simp
      with j assms(1) have "\<exists>r \<in> set ivs. fst r \<le> j \<and> j < snd r"
        by (simp add: clusters_def)
      then show ?thesis by auto
    qed
  qed
  from new old srt cov show ?thesis by (simp add: clusters_def)
qed

lemma clusters_extend:
  assumes cl: "clusters s T D P i (ans @ [(a, e)])" and "hot s T i"
    and cold: "\<forall>j. e \<le> j \<and> j < i \<longrightarrow> \<not> hot s T j" and near: "i \<le> e + D"
  shows "clusters s T D P (Suc i) (ans @ [(a, Suc i)])"
proof -
  from cl have ae: "cluster s T D P i (a, e)" by (simp add: clusters_def)
  then have "sep s T D (a, i + 1)"
    using sep_extend [of s T D a e i] cold near by (simp add: cluster_def)
  with ae assms(2) have new: "cluster s T D P (Suc i) (a, Suc i)"
    by (simp add: cluster_def)
  from cl have old: "\<forall>r \<in> set ans. cluster s T D P (Suc i) r"
    by (auto simp: clusters_def intro: cluster_mono)
  from cl have srt: "sorted_wrt (\<lambda>x y. snd x + D < fst y) (ans @ [(a, Suc i)])"
    by (simp add: clusters_def sorted_wrt_append)
  have cov: "\<forall>j. P \<le> j \<and> j < Suc i \<and> hot s T j
               \<longrightarrow> (\<exists>r \<in> set (ans @ [(a, Suc i)]). fst r \<le> j \<and> j < snd r)"
  proof (intro allI impI)
    fix j assume j: "P \<le> j \<and> j < Suc i \<and> hot s T j"
    show "\<exists>r \<in> set (ans @ [(a, Suc i)]). fst r \<le> j \<and> j < snd r"
    proof (cases "j = i")
      case True
      with ae show ?thesis by (simp add: cluster_def)
    next
      case False
      with j have "j < i" by simp
      with j cl have "\<exists>r \<in> set (ans @ [(a, e)]). fst r \<le> j \<and> j < snd r"
        unfolding clusters_def by blast
      then obtain r where r: "r \<in> set (ans @ [(a, e)])" "fst r \<le> j" "j < snd r"
        by blast
      show ?thesis
      proof (cases "r = (a, e)")
        case True
        with r j show ?thesis by auto
      next
        case False
        with r have "r \<in> set ans" by simp
        with r show ?thesis by auto
      qed
    qed
  qed
  from new old srt cov show ?thesis by (simp add: clusters_def)
qed

lemma detect_step_inv:
  assumes inv: "detect_inv s T D P i st" and "P \<le> i" and "i < length s"
    and nowrap: "length s + D < 2 ^ 64"
  shows "detect_inv s T D P (Suc i) (detect_step s T D st i)"
proof -
  obtain a e ans where st: "st = (a, e, ans)" by (cases st) auto
  show ?thesis
  proof (cases "hot s T i")
    case False
    then have same: "detect_step s T D st i = st"
      by (simp add: detect_step_def st hot_def)
    show ?thesis
    proof (cases "e = 0")
      case True
      with inv False show ?thesis
        unfolding same by (auto simp: detect_inv_def st less_Suc_eq)
    next
      case e: False
      with inv have "clusters s T D P i (ans @ [(a, e)])" by (simp add: detect_inv_def st)
      then have "clusters s T D P (Suc i) (ans @ [(a, e)])"
        using False by (rule clusters_cold_step)
      with inv False e show ?thesis
        unfolding same by (auto simp: detect_inv_def st less_Suc_eq)
    qed
  next
    case True
    show ?thesis
    proof (cases "e = 0")
      case e: True
      then have new: "detect_step s T D st i = (i, Suc i, [])"
        using True inv by (simp add: detect_step_def st hot_def detect_inv_def)
      have "clusters s T D P i []"
        using inv e by (simp add: clusters_def detect_inv_def st)
      then have "clusters s T D P (Suc i) ([] @ [(i, Suc i)])"
        using True assms(2) by (rule clusters_push) simp
      then show ?thesis unfolding new by (auto simp: detect_inv_def)
    next
      case e: False
      with inv have cl: "clusters s T D P i (ans @ [(a, e)])"
        and cold: "\<forall>j. e \<le> j \<and> j < i \<longrightarrow> \<not> hot s T j"
        by (simp_all add: detect_inv_def st)
      from cl have ae: "cluster s T D P i (a, e)" by (simp add: clusters_def)
      then have "e \<le> i" by (simp add: cluster_def)
      with assms(3) nowrap have w: "u64 (e + D) = e + D" by (simp add: u64_def)
      show ?thesis
      proof (cases "i > e + D")
        case far: True
        with e w True have new: "detect_step s T D st i = (i, Suc i, ans @ [(a, e)])"
          by (simp add: detect_step_def st hot_def)
        have "\<forall>r \<in> set (ans @ [(a, e)]). snd r + D < i"
        proof
          fix r assume "r \<in> set (ans @ [(a, e)])"
          then consider "r = (a, e)" | "r \<in> set ans" by auto
          then show "snd r + D < i"
          proof cases
            case 1
            with far show ?thesis by simp
          next
            case 2
            with cl have "snd r + D < a" by (simp add: clusters_def sorted_wrt_append)
            moreover from ae have "a < e" by (simp add: cluster_def)
            ultimately show ?thesis using far by simp
          qed
        qed
        with cl True assms(2) have "clusters s T D P (Suc i) ((ans @ [(a, e)]) @ [(i, Suc i)])"
          by (rule clusters_push)
        then show ?thesis unfolding new by (auto simp: detect_inv_def)
      next
        case near: False
        with e w True have new: "detect_step s T D st i = (a, Suc i, ans)"
          by (simp add: detect_step_def st hot_def)
        from near have "i \<le> e + D" by simp
        with cl True cold have "clusters s T D P (Suc i) (ans @ [(a, Suc i)])"
          by (rule clusters_extend)
        then show ?thesis unfolding new by (auto simp: detect_inv_def)
      qed
    qed
  qed
qed

lemma detect_loop_inv:
  assumes "P \<le> n" and "n \<le> length s" and "length s + D < 2 ^ 64"
  shows "detect_inv s T D P n (foldl (detect_step s T D) (0, 0, []) [P ..< n])"
  using assms(1,2)
proof (induction n)
  case 0
  then show ?case by (simp add: detect_inv_def)
next
  case (Suc n)
  show ?case
  proof (cases "P \<le> n")
    case True
    with Suc have "detect_inv s T D P n (foldl (detect_step s T D) (0, 0, []) [P ..< n])"
      by simp
    then have "detect_inv s T D P (Suc n)
                 (detect_step s T D (foldl (detect_step s T D) (0, 0, []) [P ..< n]) n)"
      using True Suc.prems assms(3) by (intro detect_step_inv) simp_all
    with True show ?thesis by simp
  next
    case False
    with Suc.prems have "P = Suc n" by simp
    then show ?thesis by (auto simp: detect_inv_def)
  qed
qed


text \<open>
  On an empty signal the closing assertion \<open>start < pore_a.size(0)\<close> fails, whatever the
  other arguments are.
\<close>

lemma detect_pore_signal_empty: "detect_pore_signal [] T D P = Inl AssertionFailed"
  by (simp add: detect_pore_signal_def)

subsection \<open>Claim C4: the pore-signal detector\<close>

text \<open>
  C4, as the claim states it, fails for a cluster gap near the largest 64-bit value: with
  \<open>D = 2 ^ 64 - 1\<close> the sum \<open>end + cluster_dist\<close> wraps around, every sample above the
  threshold opens an interval of its own, and two neighbouring samples above the threshold
  are returned as the intervals \<open>[0, 1)\<close> and \<open>[1, 2)\<close>, although \<open>[0, 2)\<close> has every
  property the claim asks of an interval: the returned intervals are not maximal.
\<close>

theorem C4_detect_overflow_counterexample:
  "detect_pore_signal [1, 1 :: int] 0 (2 ^ 64 - 1) 0 = Inr [(0, 1), (1, 2)]
   \<and> cluster [1, 1 :: int] 0 (2 ^ 64 - 1) 0 2 (0, 2)"
proof
  show "detect_pore_signal [1, 1 :: int] 0 (2 ^ 64 - 1) 0 = Inr [(0, 1), (1, 2)]"
    by (simp add: detect_pore_signal_def detect_step_def u64_def upt_rec)
  show "cluster [1, 1 :: int] 0 (2 ^ 64 - 1) 0 2 (0, 2)"
    by (auto simp: cluster_def sep_def hot_def)
qed

text \<open>
  C4, amended: for every nonempty signal \<open>s\<close> of length \<open>N\<close>, threshold \<open>T\<close>, cluster gap
  \<open>D\<close> with \<open>N + D < 2 ^ 64\<close> and prefix \<open>P\<close>, \<open>detect_pore_signal\<close> returns a list of
  intervals \<open>[a, b)\<close> with \<open>P \<le> a < b \<le> N\<close>; the first and the last sample of every
  interval are above the threshold; two samples above the threshold that follow each other
  within an interval have at most \<open>D\<close> samples between them; every interval ends more than
  \<open>D\<close> samples before each later one begins (ordered, disjoint, not mergeable); and every
  sample above the threshold at an index from \<open>P\<close> on lies in an interval.
\<close>

theorem C4_detect_pore_signal_clusters:
  assumes "s \<noteq> []" and "length s + D < 2 ^ 64"
  shows "\<exists>ivs. detect_pore_signal s T D P = Inr ivs
           \<and> (\<forall>r \<in> set ivs. P \<le> fst r \<and> fst r < snd r \<and> snd r \<le> length s
                 \<and> s ! fst r > T \<and> s ! (snd r - 1) > T
                 \<and> (\<forall>h1 h2. fst r \<le> h1 \<and> h1 < h2 \<and> h2 < snd r \<and> s ! h1 > T \<and> s ! h2 > T
                       \<and> (\<forall>k. h1 < k \<and> k < h2 \<longrightarrow> \<not> s ! k > T) \<longrightarrow> h2 \<le> h1 + D + 1))
           \<and> sorted_wrt (\<lambda>x y. snd x + D < fst y) ivs
           \<and> (\<forall>j. P \<le> j \<and> j < length s \<and> s ! j > T
                 \<longrightarrow> (\<exists>r \<in> set ivs. fst r \<le> j \<and> j < snd r))"
proof -
  define N where "N = length s"
  define st where "st = foldl (detect_step s T D) (0, 0, []) [P ..< N]"
  obtain a e ans where st: "st = (a, e, ans)" by (cases st) auto
  define ivs where "ivs = (if e > 0 then ans @ [(a, e)] else ans)"
  have cl: "clusters s T D P N ivs \<and> a < N \<and> e \<le> N"
  proof (cases "P \<le> N")
    case True
    then have inv: "detect_inv s T D P N st"
      unfolding st_def using assms(2) by (intro detect_loop_inv) (simp_all add: N_def)
    show ?thesis
    proof (cases "e = 0")
      case True
      with inv assms(1) show ?thesis
        by (auto simp: detect_inv_def st ivs_def clusters_def N_def)
    next
      case False
      with inv have c: "clusters s T D P N (ans @ [(a, e)])" by (simp add: detect_inv_def st)
      then have "cluster s T D P N (a, e)" by (simp add: clusters_def)
      then have "a < N \<and> e \<le> N" by (auto simp: cluster_def)
      with c False show ?thesis by (simp add: ivs_def)
    qed
  next
    case False
    then have "st = (0, 0, [])" by (simp add: st_def)
    with st False assms(1) show ?thesis
      by (auto simp: ivs_def clusters_def N_def)
  qed
  then have res: "detect_pore_signal s T D P = Inr ivs"
    using st by (simp add: detect_pore_signal_def st_def [symmetric] N_def [symmetric] ivs_def)
  from cl have "clusters s T D P (length s) ivs" by (simp add: N_def)
  then have "(\<forall>r \<in> set ivs. P \<le> fst r \<and> fst r < snd r \<and> snd r \<le> length s
                 \<and> s ! fst r > T \<and> s ! (snd r - 1) > T
                 \<and> (\<forall>h1 h2. fst r \<le> h1 \<and> h1 < h2 \<and> h2 < snd r \<and> s ! h1 > T \<and> s ! h2 > T
                       \<and> (\<forall>k. h1 < k \<and> k < h2 \<longrightarrow> \<not> s ! k > T) \<longrightarrow> h2 \<le> h1 + D + 1))
           \<and> sorted_wrt (\<lambda>x y. snd x + D < fst y) ivs
           \<and> (\<forall>j. P \<le> j \<and> j < length s \<and> s ! j > T
                 \<longrightarrow> (\<exists>r \<in> set ivs. fst r \<le> j \<and> j < snd r))"
    unfolding clusters_def cluster_def sep_def hot_def by simp
  with res show ?thesis by blast
qed

theorem C4_detect_pore_signal_witness:
  "[0, 5, 0, 7, 0, 0, 0, 9 :: int] \<noteq> []
   \<and> length [0, 5, 0, 7, 0, 0, 0, 9 :: int] + 1 < (2 :: nat) ^ 64
   \<and> detect_pore_signal [0, 5, 0, 7, 0, 0, 0, 9 :: int] 4 1 0 = Inr [(1, 4), (7, 8)]"
  using C4_detect_pore_signal_clusters [of "[0, 5, 0, 7, 0, 0, 0, 9 :: int]" 1 4 0]
  by (simp add: detect_pore_signal_def detect_step_def u64_def upt_rec)

section \<open>Properties of the derived identifiers\<close>

lemma drop_bit_15: "drop_bit 4 (15 :: nat) = 0" by (simp add: drop_bit_eq_div)
lemma drop_bit_64: "drop_bit 4 (64 :: nat) = 4" by (simp add: drop_bit_eq_div)
lemma drop_bit_63: "drop_bit 4 (63 :: nat) = 3" by (simp add: drop_bit_eq_div)
lemma drop_bit_128: "drop_bit 4 (128 :: nat) = 8" by (simp add: drop_bit_eq_div)

lemma unat_version_byte: "unat ((((b::8 word) AND 0x0F) OR 0x40)) = (unat b AND 15) OR 64"
    by (simp add: unsigned_or_eq unsigned_and_eq)

lemma drop_bit_version: "drop_bit 4 (((x::nat) AND 15) OR 64) = 4"
    by (simp only: drop_bit_or drop_bit_and drop_bit_15 drop_bit_64) simp

lemma version_nibble: "unat ((((b::8 word) AND 0x0F) OR 0x40)) div 16 = 4"
  using drop_bit_version [of "unat b"] unfolding unat_version_byte by (simp only: drop_bit_eq_div) simp

lemma and_3_less: "(x :: nat) AND 3 < 4"
proof -
  have "x AND 3 = take_bit 2 x" by (simp add: take_bit_eq_mask mask_eq_exp_minus_1)
  then show ?thesis by (simp add: take_bit_eq_mod)
qed

lemma or_8_plus: "y < 4 \<Longrightarrow> (y :: nat) OR 8 = y + 8"
proof -
  assume "y < 4"
  then have "y = 0 \<or> y = 1 \<or> y = 2 \<or> y = 3" by arith
  then show ?thesis by (elim disjE) simp_all
qed


lemma unat_variant_byte: "unat ((((b::8 word) AND 0x3F) OR 0x80)) = (unat b AND 63) OR 128"
  by (simp add: unsigned_or_eq unsigned_and_eq)

lemma drop_bit_variant: "drop_bit 4 (((x::nat) AND 63) OR 128) = (drop_bit 4 x AND 3) + 8"
proof -
  have "drop_bit 4 ((x AND 63) OR 128) = (drop_bit 4 x AND 3) OR 8"
    by (simp only: drop_bit_or drop_bit_and drop_bit_63 drop_bit_128)
  also have "\<dots> = (drop_bit 4 x AND 3) + 8"
    by (rule or_8_plus) (rule and_3_less)
  finally show ?thesis .
qed

lemma variant_nibble: "8 \<le> unat ((((b::8 word) AND 0x3F) OR 0x80)) div 16
    \<and> unat ((((b::8 word) AND 0x3F) OR 0x80)) div 16 < 12"
proof -
  have "unat ((b AND 0x3F) OR 0x80) div 16 = (drop_bit 4 (unat b) AND 3) + 8"
    using drop_bit_variant [of "unat b"] unfolding unat_variant_byte by (simp only: drop_bit_eq_div) simp
  moreover have "drop_bit 4 (unat b) AND 3 < 4" by (rule and_3_less)
  ultimately show ?thesis by simp
qed


lemma hex_digit_is_hex: "d < 16 \<Longrightarrow> is_hex (hex_digit d)"
  unfolding is_hex_def hex_digit_def by (rule nth_mem) simp

lemma to_hex_byte:
  assumes "n < 256"
  shows "setw_setfill 2 (CHR ''0'') (to_hex n) = [hex_digit (n div 16), hex_digit (n mod 16)]"
proof (cases "n < 16")
  case True
  then show ?thesis by (simp add: setw_setfill_def hex_digit_def)
next
  case False
  with assms have "n div 16 < 16" by simp
  then have "to_hex (n div 16) = [hex_digit (n div 16)]" by simp
  with False have "to_hex n = [hex_digit (n div 16), hex_digit (n mod 16)]"
    by (subst to_hex.simps) simp
  then show ?thesis by (simp add: setw_setfill_def)
qed

lemma uuid_byte_str_eq:
  "uuid_byte_str th i = spec_hex2 (th ! i) @ (if i = 3 \<or> i = 5 \<or> i = 7 \<or> i = 9 then ''-'' else [])"
proof -
  have "unat (th ! i) < 256" using unsigned_less [of "th ! i"] by simp
  then show ?thesis unfolding uuid_byte_str_def spec_hex2_def by (simp only: to_hex_byte)
qed

lemma upt_enum:
  "[0 ..< 16] = [0,1,2,3,4,5,6,7,8,9,10,11,12,13,14,15 :: nat]"
  "[0 ..< 4] = [0,1,2,3 :: nat]" "[4 ..< 6] = [4,5 :: nat]" "[6 ..< 8] = [6,7 :: nat]"
  "[8 ..< 10] = [8,9 :: nat]" "[10 ..< 16] = [10,11,12,13,14,15 :: nat]"
  by (simp_all add: upt_rec)

lemma derive_uuid_spec: "derive_uuid sha256 ident desc = spec_uuid sha256 ident desc"
proof -
  define th where "th = take 16 (SHA256_Final sha256
                          (SHA256_Update (SHA256_Update SHA256_Init ident) desc))"
  define th1 where "th1 = th[6 := (th ! 6 AND 0x0F) OR 0x40]"
  define th2 where "th2 = th1[8 := (th1 ! 8 AND 0x3F) OR 0x80]"
  have th: "length th = 16" "\<And>i. i < 16 \<Longrightarrow> th ! i = sha256 (ident @ desc) i"
    by (simp_all add: th_def SHA256_Final_def SHA256_Update_def SHA256_Init_def)
  have len: "length th2 = 16" by (simp add: th2_def th1_def th)
  have nth: "th2 ! i = spec_uuid_bytes sha256 ident desc i" if "i < 16" for i
    using that by (simp add: th2_def th1_def th nth_list_update spec_uuid_bytes_def)
  have "derive_uuid sha256 ident desc = concat (map (uuid_byte_str th2) [0 ..< length th2])"
    by (simp add: derive_uuid_def Let_def th_def th1_def th2_def)
  also have "\<dots> = concat (map (\<lambda>i. spec_hex2 (spec_uuid_bytes sha256 ident desc i)
                     @ (if i = 3 \<or> i = 5 \<or> i = 7 \<or> i = 9 then ''-'' else [])) [0 ..< 16])"
    unfolding len by (rule arg_cong [where f = concat], rule map_cong)
      (simp_all add: uuid_byte_str_eq nth)
  also have "\<dots> = spec_uuid sha256 ident desc"
    unfolding spec_uuid_def upt_enum by simp
  finally show ?thesis .
qed


lemma hi_digit_is_hex: "is_hex (hex_digit (unat (b :: byte) div 16))"
proof -
  have "unat b < 256" using unsigned_less [of b] by simp
  then have "unat b div 16 < 16" by simp
  then show ?thesis by (rule hex_digit_is_hex)
qed

lemma lo_digit_is_hex: "is_hex (hex_digit (unat (b :: byte) mod 16))"
  by (rule hex_digit_is_hex) simp

lemma version_digit: "hex_digit (unat (((b :: byte) AND 0x0F) OR 0x40) div 16) = CHR ''4''"
  by (simp only: version_nibble) (simp add: hex_digit_def)

lemma variant_digit: "hex_digit (unat (((b :: byte) AND 0x3F) OR 0x80) div 16) \<in> set ''89ab''"
proof -
  define n where "n = unat ((b AND 0x3F) OR 0x80) div 16"
  have "8 \<le> n \<and> n < 12" unfolding n_def by (rule variant_nibble)
  then have "n = 8 \<or> n = 9 \<or> n = 10 \<or> n = 11" by arith
  then have "hex_digit n \<in> set ''89ab''"
    by (elim disjE) (simp_all add: hex_digit_def)
  then show ?thesis by (simp only: n_def)
qed

lemma spec_uuid_valid: "valid_uuid_v4 (spec_uuid sha256 ident desc)"
proof -
  have b6: "spec_uuid_bytes sha256 ident desc 6 = (sha256 (ident @ desc) 6 AND 0x0F) OR 0x40"
    and b8: "spec_uuid_bytes sha256 ident desc 8 = (sha256 (ident @ desc) 8 AND 0x3F) OR 0x80"
    by (simp_all add: spec_uuid_bytes_def)
  have v: "hex_digit (unat (spec_uuid_bytes sha256 ident desc 6) div 16) = CHR ''4''"
    unfolding b6 by (rule version_digit)
  have w: "hex_digit (unat (spec_uuid_bytes sha256 ident desc 8) div 16) \<in> set ''89ab''"
    unfolding b8 by (rule variant_digit)
  show ?thesis
    unfolding valid_uuid_v4_def spec_uuid_def upt_enum spec_hex2_def
    using v w by (simp add: hi_digit_is_hex lo_digit_is_hex is_hex_def [of "CHR ''4''"])
qed

subsection \<open>Claim C3: the derived identifier\<close>

text \<open>
  C3: \<open>derive_uuid\<close> is a function of its two arguments (and of the digest function): for
  every digest function, identifier and description it returns the string the
  specification describes (the digest of the concatenation, cut to 16 bytes, byte 6 set to
  \<open>(b6 & 0x0F) | 0x40\<close>, byte 8 to \<open>(b8 & 0x3F) | 0x80\<close>, lowercase hexadecimal, hyphens
  after bytes 4, 6, 8 and 10), and that string has the syntax of a valid version-4 identifier
  of RFC 4122. Being a function, it returns the same string for the same arguments.
\<close>

theorem C3_derive_uuid_refines_spec_and_is_v4:
  "derive_uuid sha256 input_uuid desc = spec_uuid sha256 input_uuid desc
   \<and> valid_uuid_v4 (derive_uuid sha256 input_uuid desc)"
  using derive_uuid_spec [of sha256 input_uuid desc] spec_uuid_valid [of sha256 input_uuid desc]
  by simp

theorem C3_derive_uuid_witness:
  "valid_uuid_v4 (derive_uuid (\<lambda>m i. of_nat (length m + 17 * i)) ''r1'' ''0-100'')"
  using C3_derive_uuid_refines_spec_and_is_v4 [of "\<lambda>m i. of_nat (length m + 17 * i)" "''r1''" "''0-100''"]
  by (elim conjE)

section \<open>Properties of the timestamp functions\<close>

lemma c_div_mult_1000: "c_div (s * 1000) 1000 = s"
proof -
  have "\<bar>s * 1000\<bar> div \<bar>1000\<bar> = \<bar>s\<bar>" by (simp add: abs_mult)
  moreover have "sgn (s * 1000) = sgn s" by (simp add: sgn_mult)
  ultimately show ?thesis by (simp add: c_div_def mult_sgn_abs)
qed

lemma c_mod_mult_1000: "c_mod (s * 1000) 1000 = 0"
  by (simp add: c_mod_def c_div_mult_1000)

lemma stoi_000: "stoi ''000'' = Inr 0"
  by (simp add: stoi_def is_space_def is_digit_def digit_val_def Let_def)

lemma parse_canonical_000:
  "get_unix_time_from_string_timestamp sp ''2023-01-01T00:00:02.000+00:00''
     = Inr (sp ''2023-01-01T00:00:02.000+00:00'' * 1000)"
  by (simp add: get_unix_time_from_string_timestamp_def substr_def u64_def stoi_000)

lemma format_whole_second:
  "get_string_timestamp_from_unix_time sf (s * 1000) = sf s @ ''0+00:00''"
  by (simp add: get_string_timestamp_from_unix_time_def c_div_mult_1000 c_mod_mult_1000
      to_string_def dec_digit_def)

lemma three_digits: "100 * (n div 100) + 10 * (n div 10 mod 10) + n mod 10 = (n :: nat)"
proof -
  define q a b c where "q = n div 10" and "a = n div 100" and "b = n div 10 mod 10"
    and "c = n mod 10"
  have "n div 10 div 10 = n div 100" by (simp add: div_mult2_eq [symmetric])
  then have "q = 10 * a + b" unfolding q_def a_def b_def
    using div_mult_mod_eq [of "n div 10" 10] by (simp only: mult.commute)
  moreover have "n = 10 * q + c" unfolding q_def c_def
    using div_mult_mod_eq [of n 10] by (simp only: mult.commute)
  ultimately have "100 * a + 10 * b + c = n" by simp
  then show ?thesis unfolding a_def b_def c_def .
qed


lemma digit_char:
  assumes "j < 10"
  shows "is_digit (''0123456789'' ! j) \<and> \<not> is_space (''0123456789'' ! j)
         \<and> ''0123456789'' ! j \<noteq> CHR ''-'' \<and> ''0123456789'' ! j \<noteq> CHR ''+''
         \<and> digit_val (''0123456789'' ! j) = int j"
proof -
  from assms have "j \<in> {0, 1, 2, 3, 4, 5, 6, 7, 8, 9}" by auto
  then show ?thesis
    by (elim insertE emptyE) (simp_all add: is_digit_def is_space_def digit_val_def)
qed


lemma dec_digits_one: "k < 10 \<Longrightarrow> dec_digits k = [dec_digit k]"
  by (subst dec_digits.simps) (simp only: if_True)

lemma dec_digits_two:
  assumes "10 \<le> k" and "k < 100"
  shows "dec_digits k = [dec_digit (k div 10), dec_digit (k mod 10)]"
proof -
  from assms(2) have "k div 10 < 10" by (simp add: div_less_iff_less_mult)
  then have "dec_digits (k div 10) = [dec_digit (k div 10)]" by (rule dec_digits_one)
  moreover from assms(1) have "\<not> k < 10" by simp
  ultimately show ?thesis by (subst dec_digits.simps) (simp only: if_False append.simps)
qed

lemma dec_digits_three:
  assumes "100 \<le> k" and "k < 1000"
  shows "dec_digits k = [dec_digit (k div 100), dec_digit (k div 10 mod 10),
                         dec_digit (k mod 10)]"
proof -
  from assms have "10 \<le> k div 10" "k div 10 < 100"
    by (simp_all add: div_less_iff_less_mult less_eq_div_iff_mult_less_eq)
  then have "dec_digits (k div 10)
               = [dec_digit (k div 10 div 10), dec_digit (k div 10 mod 10)]"
    by (rule dec_digits_two)
  moreover have "k div 10 div 10 = k div 100" by (simp add: div_mult2_eq [symmetric])
  moreover from assms(1) have "\<not> k < 10" by simp
  ultimately show ?thesis by (subst dec_digits.simps) (simp only: if_False append.simps)
qed


lemma digit_of_nth: "j < 10 \<Longrightarrow> digit_of (dec_digit j) j"
  using digit_char [of j] by (simp add: digit_of_def dec_digit_def)

lemma minus_not_space: "\<not> is_space (CHR ''-'')"
  by (simp add: is_space_def)

lemma stoi_chars1:
  assumes "digit_of x a"
  shows "stoi [x] = Inr (int a)" and "stoi [CHR ''-'', x] = Inr (- int a)"
  using assms minus_not_space by (simp_all add: stoi_def digit_of_def Let_def)

lemma stoi_chars2:
  assumes "digit_of x a" and "digit_of y b"
  shows "stoi [x, y] = Inr (int (10 * a + b))"
    and "stoi [CHR ''-'', x, y] = Inr (- int (10 * a + b))"
  using assms minus_not_space by (simp_all add: stoi_def digit_of_def Let_def)

lemma stoi_chars3:
  assumes "digit_of x a" and "digit_of y b" and "digit_of z c"
  shows "stoi [x, y, z] = Inr (int (100 * a + 10 * b + c))"
    and "stoi [CHR ''-'', x, y, z] = Inr (- int (100 * a + 10 * b + c))"
  using assms minus_not_space by (simp_all add: stoi_def digit_of_def Let_def)


lemma stoi_dec_digits:
  assumes "n < 1000"
  shows "stoi (dec_digits n) = Inr (int n) \<and> stoi (CHR ''-'' # dec_digits n) = Inr (- int n)
         \<and> dec_digits n \<noteq> [] \<and> length (dec_digits n) \<le> 3"
proof -
  consider "n < 10" | "10 \<le> n" "n < 100" | "100 \<le> n" using assms by linarith
  then show ?thesis
  proof cases
    case 1
    then have dd: "dec_digits n = [dec_digit n]" by (rule dec_digits_one)
    show ?thesis unfolding dd using stoi_chars1 [OF digit_of_nth [OF 1]] by simp
  next
    case 2
    then have dd: "dec_digits n = [dec_digit (n div 10), dec_digit (n mod 10)]"
      by (rule dec_digits_two)
    from 2 have d: "n div 10 < 10" "n mod 10 < 10" by (simp_all add: div_less_iff_less_mult)
    have v: "10 * (n div 10) + n mod 10 = n" by simp
    show ?thesis
      unfolding dd using stoi_chars2 [OF digit_of_nth [OF d(1)] digit_of_nth [OF d(2)]]
      by (simp only: v) simp
  next
    case 3
    with assms have dd: "dec_digits n = [dec_digit (n div 100), dec_digit (n div 10 mod 10),
                         dec_digit (n mod 10)]"
      by (intro dec_digits_three)
    from assms have d: "n div 100 < 10" "n div 10 mod 10 < 10" "n mod 10 < 10"
      by (simp_all add: div_less_iff_less_mult)
    show ?thesis
      unfolding dd
      using stoi_chars3 [OF digit_of_nth [OF d(1)] digit_of_nth [OF d(2)] digit_of_nth [OF d(3)]]
      by (simp only: three_digits) simp
  qed
qed

lemma stoi_to_string:
  assumes "\<bar>k\<bar> < 1000"
  shows "stoi (to_string k) = Inr k \<and> to_string k \<noteq> [] \<and> length (to_string k) \<le> 4"
proof (cases "k < 0")
  case True
  with assms have "nat (- k) < 1000" by simp
  from stoi_dec_digits [OF this] True show ?thesis by (simp add: to_string_def)
next
  case False
  with assms have "nat k < 1000" by simp
  from stoi_dec_digits [OF this] False show ?thesis by (simp add: to_string_def)
qed

lemma c_div_mod_1000: "c_div m 1000 * 1000 + c_mod m 1000 = m"
  by (simp add: c_mod_def)

lemma c_mod_1000_bound: "\<bar>c_mod m 1000\<bar> < 1000"
proof (cases "m < 0")
  case True
  then have "c_mod m 1000 = - ((- m) mod 1000)"
    by (simp add: c_mod_def c_div_def minus_mult_div_eq_mod [symmetric])
  moreover have "0 \<le> (- m) mod 1000" "(- m) mod 1000 < 1000" by simp_all
  ultimately show ?thesis by simp
next
  case False
  then have "c_mod m 1000 = m mod 1000"
    by (cases "m = 0") (simp_all add: c_mod_def c_div_def minus_mult_div_eq_mod [symmetric])
  moreover have "0 \<le> m mod 1000" "m mod 1000 < 1000" by simp_all
  ultimately show ?thesis by simp
qed

text \<open>
  The other direction of the round trip holds: when the C library writes 20 characters for
  the seconds (a four-digit year) and reads back from a text the second count it was
  written for (UTC), parsing the formatted time returns the millisecond count.
\<close>

lemma parse_of_format:
  assumes len: "\<And>s. length (sf s) = 20" and readback: "\<And>s rest. sp (sf s @ rest) = s"
  shows "get_unix_time_from_string_timestamp sp (get_string_timestamp_from_unix_time sf m)
           = Inr m"
proof -
  define s k where "s = c_div m 1000" and "k = c_mod m 1000"
  have str: "get_string_timestamp_from_unix_time sf m = sf s @ to_string k @ ''+00:00''"
    by (simp add: get_string_timestamp_from_unix_time_def s_def k_def)
  have k: "\<bar>k\<bar> < 1000" unfolding k_def by (rule c_mod_1000_bound)
  have m: "s * 1000 + k = m" unfolding s_def k_def by (rule c_div_mod_1000)
  from stoi_to_string [OF k] have st: "stoi (to_string k) = Inr k"
    and l: "length (to_string k) \<le> 4" by simp_all
  have "u64 (length (sf s @ to_string k @ ''+00:00'') + 2 ^ 64 - 26) = length (to_string k)"
    using l by (simp add: u64_def len)
  then have "substr (sf s @ to_string k @ ''+00:00'') 20
               (u64 (length (sf s @ to_string k @ ''+00:00'') + 2 ^ 64 - 26)) = Inr (to_string k)"
    by (simp add: substr_def len)
  then show ?thesis
    unfolding str get_unix_time_from_string_timestamp_def
    by (simp add: st readback m)
qed


subsection \<open>Claim C2: the timestamp round trip\<close>

text \<open>
  C2 fails on the code, which says so itself (the function is "copied from DataLoader.cpp
  along with the num_ms bug"): the millisecond field is written with \<open>std::to_string\<close>,
  without leading zeros. For the canonical timestamp \<open>2023-01-01T00:00:02.000+00:00\<close>,
  whatever the calendar functions of the C library return, parsing succeeds and formatting
  the result ends in \<open>0+00:00\<close> after the text of the seconds; with the 20 characters that
  \<open>strftime\<close> writes for a four-digit year the result is not the input. (The other
  half of the claim is lemma \<open>parse_of_format\<close>.)
\<close>

theorem C2_format_of_parse_drops_leading_zeros:
  "format_of_parse sf sp ''2023-01-01T00:00:02.000+00:00''
     = Inr (sf (sp ''2023-01-01T00:00:02.000+00:00'') @ ''0+00:00'')
   \<and> (length (sf (sp ''2023-01-01T00:00:02.000+00:00'')) = 20 \<longrightarrow>
        format_of_parse sf sp ''2023-01-01T00:00:02.000+00:00''
          \<noteq> Inr ''2023-01-01T00:00:02.000+00:00'')"
proof -
  have eq: "format_of_parse sf sp ''2023-01-01T00:00:02.000+00:00''
     = Inr (sf (sp ''2023-01-01T00:00:02.000+00:00'') @ ''0+00:00'')"
    unfolding format_of_parse_def parse_canonical_000 by (simp add: format_whole_second)
  have "length (sf (sp ''2023-01-01T00:00:02.000+00:00'') @ ''0+00:00'')
          \<noteq> length ''2023-01-01T00:00:02.000+00:00''"
    if "length (sf (sp ''2023-01-01T00:00:02.000+00:00'')) = 20"
    using that by simp
  then have "length (sf (sp ''2023-01-01T00:00:02.000+00:00'')) = 20 \<longrightarrow>
      sf (sp ''2023-01-01T00:00:02.000+00:00'') @ ''0+00:00'' \<noteq> ''2023-01-01T00:00:02.000+00:00''"
    by metis
  with eq show ?thesis by simp
qed

theorem C2_format_of_parse_witness:
  "length ''2023-01-01T00:00:02.'' = 20
   \<and> format_of_parse (\<lambda>s. ''2023-01-01T00:00:02.'') (\<lambda>t. 1672531202)
        ''2023-01-01T00:00:02.000+00:00'' = Inr ''2023-01-01T00:00:02.0+00:00''"
  using C2_format_of_parse_drops_leading_zeros
    [of "\<lambda>s. ''2023-01-01T00:00:02.''" "\<lambda>t. 1672531202"]
  by simp

section \<open>Properties of the cut operation\<close>

lemma covered_append: "covered (xs @ ys) = covered xs + covered ys"
  by (simp add: covered_def)

lemma covered_Cons: "covered (r # rs) = mset [fst r ..< snd r] + covered rs"
  by (simp add: covered_def)


lemma ones_count:
  "set mvs \<subseteq> {0, 1} \<Longrightarrow> length (filter (\<lambda>i. mvs ! i = 1) [0 ..< length mvs]) = sum_list mvs"
proof (induction mvs rule: rev_induct)
  case Nil
  then show ?case by simp
next
  case (snoc x xs)
  have "filter (\<lambda>i. (xs @ [x]) ! i = 1) [0 ..< length xs] = filter (\<lambda>i. xs ! i = 1) [0 ..< length xs]"
    by (rule filter_cong) (auto simp: nth_append)
  moreover from snoc.prems have "x = 0 \<or> x = 1" by auto
  ultimately show ?case using snoc by auto
qed

lemma moves_to_map_length:
  "set mvs \<subseteq> {0, 1} \<Longrightarrow> length (moves_to_map mvs st N k) = sum_list mvs + 1"
  using ones_count [of mvs] by (simp add: moves_to_map_def)

lemma moves_to_map_last:
  "set mvs \<subseteq> {0, 1} \<Longrightarrow> moves_to_map mvs st N k ! sum_list mvs = N"
  using ones_count [of mvs] by (simp add: moves_to_map_def nth_append)


lemma moves_to_map_aligned:
  assumes "i < length (moves_to_map mvs st N k) - 1"
  shows "moves_to_map mvs st N k ! i mod st = 0"
  using assms by (simp add: moves_to_map_def nth_append)







lemma sorted_disjoint_nonempty:
  assumes "\<forall>r \<in> set (rs :: PosRanges). fst r < snd r"
  shows "sorted_wrt (\<lambda>a b. snd a \<le> fst b) rs
         \<longleftrightarrow> sorted_wrt (\<lambda>a b. fst a \<le> fst b \<and> {fst a ..< snd a} \<inter> {fst b ..< snd b} = {}) rs"
proof
  assume "sorted_wrt (\<lambda>a b. snd a \<le> fst b) rs"
  then show "sorted_wrt (\<lambda>a b. fst a \<le> fst b \<and> {fst a ..< snd a} \<inter> {fst b ..< snd b} = {}) rs"
  proof (rule sorted_wrt_mono_rel [rotated])
    fix a b assume "a \<in> set rs" "b \<in> set rs" "snd a \<le> fst b"
    with assms have "fst a < snd a" by simp
    with \<open>snd a \<le> fst b\<close> show "fst a \<le> fst b \<and> {fst a ..< snd a} \<inter> {fst b ..< snd b} = {}"
      by auto
  qed
next
  assume "sorted_wrt (\<lambda>a b. fst a \<le> fst b \<and> {fst a ..< snd a} \<inter> {fst b ..< snd b} = {}) rs"
  then show "sorted_wrt (\<lambda>a b. snd a \<le> fst b) rs"
  proof (rule sorted_wrt_mono_rel [rotated])
    fix a b assume ab: "a \<in> set rs" "b \<in> set rs"
      and d: "fst a \<le> fst b \<and> {fst a ..< snd a} \<inter> {fst b ..< snd b} = {}"
    show "snd a \<le> fst b"
    proof (rule ccontr)
      assume "\<not> snd a \<le> fst b"
      with d have "fst b \<in> {fst a ..< snd a}" by simp
      moreover from assms ab(2) have "fst b \<in> {fst b ..< snd b}" by simp
      moreover from d have "{fst a ..< snd a} \<inter> {fst b ..< snd b} = {}" by (rule conjunct2)
      ultimately show False by blast
    qed
  qed
qed

subsection \<open>Claim C1: the coverage law of the cut\<close>





section \<open>Properties of the subread factory inside the cut\<close>

lemma adjust_time_ms_canonical_000:
  "adjust_time_ms sf sp ''2023-01-01T00:00:00.000+00:00'' k
     = Inr (get_string_timestamp_from_unix_time sf
              (sp ''2023-01-01T00:00:00.000+00:00'' * 1000 + int k))"
  by (simp add: adjust_time_ms_def get_unix_time_from_string_timestamp_def substr_def u64_def
      stoi_000)

lemma split_calls_loop_shape:
  assumes "length m = length (seq read) + 1" and "m ! length (seq read) = length (raw_data read)"
    and "\<forall>r \<in> set spacers. snd r \<le> length (seq read)"
    and "start_pos \<le> length (seq read)"
    and "split_calls_loop read m start_pos (m ! start_pos) spacers = Inr calls"
  shows "\<forall>c \<in> set calls. fst (fst c) \<le> length (seq read) \<and> snd (fst c) \<le> length (seq read)
           \<and> snd c = (m ! fst (fst c), m ! snd (fst c))"
  using assms(3-)
proof (induction spacers arbitrary: start_pos calls)
  case Nil
  then show ?case using assms(1,2) by (auto simp: vec_at_def split: if_splits)
next
  case (Cons r rs)
  from Cons.prems(1) have r: "snd r \<le> length (seq read)"
    and rs: "\<forall>x \<in> set rs. snd x \<le> length (seq read)" by simp_all
  from Cons.prems(3) obtain calls' where
      e: "fst r < length m"
      and rest: "split_calls_loop read m (snd r) (m ! snd r) rs = Inr calls'"
      and calls: "calls = ((start_pos, fst r), (m ! start_pos, m ! fst r)) # calls'"
    by (auto simp: vec_at_def split: sum.splits if_splits)
  from Cons.IH [OF rs r rest] have "\<forall>c \<in> set calls'. fst (fst c) \<le> length (seq read)
      \<and> snd (fst c) \<le> length (seq read) \<and> snd c = (m ! fst (fst c), m ! snd (fst c))" .
  with e assms(1) Cons.prems(2) show ?case unfolding calls by simp
qed

lemma split_calls_aligned:
  assumes "read_ok read" and "\<forall>r \<in> set spacers. snd r \<le> length (seq read)"
    and "split_calls read spacers = Inr calls" and "c \<in> set calls"
  shows "(snd (snd c) mod model_stride read = 0
          \<or> (snd (snd c) = length (raw_data read) \<and> snd (fst c) = length (seq read)))
         \<and> (fst (fst c) < length (seq read) \<longrightarrow> fst (snd c) mod model_stride read = 0)"
proof -
  let ?m = "seq_to_sig read" and ?n = "length (seq read)"
  from assms(1) have bits: "set (moves read) \<subseteq> {0, 1}"
    and sum: "sum_list (moves read) = ?n" by (simp_all add: read_ok_def)
  have m: "length ?m = ?n + 1" "?m ! ?n = length (raw_data read)"
    using moves_to_map_length [OF bits] moves_to_map_last [OF bits]
    by (simp_all add: seq_to_sig_def sum)
  have al: "?m ! q mod model_stride read = 0" if "q < ?n" for q
    using that m(1) moves_to_map_aligned [of q "moves read" "model_stride read"
        "length (raw_data read)" "?n + 1"]
    by (simp add: seq_to_sig_def)
  from assms(3) m(1) have "split_calls_loop read ?m 0 (?m ! 0) spacers = Inr calls"
    unfolding split_calls_def seq_to_sig_def [symmetric]
    by (auto simp: vec_at_def Let_def split: if_splits)
  from split_calls_loop_shape [OF m assms(2) _ this] assms(4)
  have c: "fst (fst c) \<le> ?n" "snd (fst c) \<le> ?n" "snd c = (?m ! fst (fst c), ?m ! snd (fst c))"
    by auto
  show ?thesis
  proof (cases "snd (fst c) < ?n")
    case True
    with c al show ?thesis by simp
  next
    case False
    with c have "snd (fst c) = ?n" by simp
    with c m(2) al show ?thesis by simp
  qed
qed


lemma read_ragged_map: "seq_to_sig read_ragged = [0, 2, 5]"
  by (simp add: seq_to_sig_def moves_to_map_def read_ragged_def read0_def upt_rec)

lemma read_ragged_first_child: "\<exists>sr. subread l read_ragged (0, 1) (0, 2) = Inr sr"
  by (simp add: subread_def read_ragged_def read0_def copy_read_def Let_def
      adjust_time_ms_canonical_000 substr_def u64_def)

lemma read_ragged_last_child: "subread l read_ragged (2, 2) (5, 5) = Inl AssertionFailed"
  by (simp add: subread_def read_ragged_def read0_def)

subsection \<open>Claim C10: the assertions of the subread factory\<close>

text \<open>
  C10 fails on the code: the first assertion of \<open>subread\<close> is reachable. A spacer that ends
  at the last base makes \<open>split\<close> start the last child at \<open>seq_to_sig_map[len(seq)]\<close>, the
  length of the signal, and with a ragged last stride that is no multiple of the stride.
  For the read with stride 2, moves 1, 1, five samples and the bases AC, and the spacer
  \<open>[1, 2)\<close>, the last call of \<open>subread\<close> has the signal range \<open>[5, 5)\<close>, the assertion
  \<open>signal_range.first % stride == 0\<close> fails, and so does \<open>split\<close>; this holds whatever the
  libraries return. (Lemma \<open>split_calls_aligned\<close>: the second assertion always holds, and
  the first one holds for every call whose seq-range starts before the end of the sequence.)
\<close>

theorem C10_subread_assertion_reached:
  "read_ok read_ragged \<and> spacers_ok (length (seq read_ragged)) [(1, 2)]
   \<and> split_calls read_ragged [(1, 2)] = Inr [((0, 1), (0, 2)), ((2, 2), (5, 5))]
   \<and> subread l read_ragged (2, 2) (5, 5) = Inl AssertionFailed
   \<and> split l read_ragged [(1, 2)] = Inl AssertionFailed"
proof -
  obtain sr where sr: "subread l read_ragged (0, 1) (0, 2) = Inr sr"
    using read_ragged_first_child by blast
  have len: "length (seq read_ragged) = 2" "length (raw_data read_ragged) = 5"
    by (simp_all add: read_ragged_def)
  have calls: "split_calls read_ragged [(1, 2)] = Inr [((0, 1), (0, 2)), ((2, 2), (5, 5))]"
    unfolding split_calls_def seq_to_sig_def [symmetric] read_ragged_map
    by (simp add: vec_at_def len)
  have "split l read_ragged [(1, 2)] = Inl AssertionFailed"
    unfolding split_def seq_to_sig_def [symmetric] read_ragged_map
    using sr read_ragged_last_child [of l] by (simp add: vec_at_def len Let_def)
  moreover have "read_ok read_ragged" by (simp add: read_ok_def read_ragged_def read0_def)
  moreover have "spacers_ok (length (seq read_ragged)) [(1, 2)]"
    by (simp add: spacers_ok_def len)
  ultimately show ?thesis using calls read_ragged_last_child by simp
qed


theorem C10_subread_assertion_witness:
  "split libs0 read_ragged [(1, 2)] = Inl AssertionFailed"
  using C10_subread_assertion_reached [of libs0] by (elim conjE)

section \<open>Properties of the worker\<close>


subsection \<open>Claim C6: the disabled node\<close>



lemma cum_sums_from_Nil: "cum_sums_from p mvs = [] \<longleftrightarrow> mvs = []"
  by (cases mvs) simp_all

lemma last_cum_sums_from: "mvs \<noteq> [] \<Longrightarrow> last (cum_sums_from p mvs) = p + sum_list mvs"
proof (induction mvs arbitrary: p)
  case Nil
  then show ?case by simp
next
  case (Cons m ms)
  show ?case
  proof (cases "ms = []")
    case True
    then show ?thesis by simp
  next
    case False
    then have "cum_sums_from (p + m) ms \<noteq> []" by (simp add: cum_sums_from_Nil)
    moreover from False have "last (cum_sums_from (p + m) ms) = p + m + sum_list ms"
      by (rule Cons.IH)
    ultimately show ?thesis by simp
  qed
qed

lemma ExtRead_new_ok:
  assumes "moves r \<noteq> []" and "sum_list (moves r) = length (seq r)"
  shows "ExtRead_new r = Inr \<lparr>er_read = r, er_data_as_float32 = raw_data r,
                               er_move_sums = move_cum_sums (moves r)\<rparr>"
  using assms last_cum_sums_from [of "moves r" 0]
  by (simp add: ExtRead_new_def move_cum_sums_def cum_sums_from_Nil Let_def)

lemma ExtRead_new_read: "ExtRead_new r = Inr ext \<Longrightarrow> er_read ext = r"
  by (auto simp: ExtRead_new_def Let_def split: if_splits)

lemma run_split_finders_no_spacers:
  "\<forall>f \<in> set finders. snd f ext = Inr [] \<Longrightarrow> run_split_finders l finders [ext] = Inr [ext]"
proof (induction finders)
  case Nil
  then show ?case by simp
next
  case (Cons f fs)
  obtain d g where f: "f = (d, g)" by (cases f)
  with Cons.prems have "g ext = Inr []" by simp
  then have "split_round l g [ext] [] = Inr [ext]" by simp
  with Cons f show ?case by simp
qed

subsection \<open>Claim C7: a read that no split finder cuts\<close>

text \<open>
  C7: when the node is enabled and every split finder of the list returns the empty spacer
  list on the extended read of the input, the worker pushes exactly one read: the input
  with \<open>parent_read_id\<close> set to its own \<open>read_id\<close> and every other field, \<open>read_id\<close>
  included, unchanged. The list of finders is any list; the node's own list
  \<open>build_split_finders\<close> is an instance.
\<close>

theorem C7_no_spacers_one_read_stamped:
  assumes "enabled m_settings" and "ExtRead_new init_read = Inr ext"
    and "\<forall>f \<in> set finders. snd f ext = Inr []"
  shows "worker_thread l m_settings finders [MsgRead init_read] []
           = Inr [MsgRead (init_read\<lparr>parent_read_id := read_id init_read\<rparr>)]"
proof -
  from assms(3) have "run_split_finders l finders [ext] = Inr [ext]"
    by (rule run_split_finders_no_spacers)
  with assms(2) have "process_read l finders init_read
      = Inr [init_read\<lparr>parent_read_id := read_id init_read\<rparr>]"
    by (simp add: process_read_def ExtRead_new_read)
  with assms(1) show ?thesis by simp
qed

subsection \<open>Claim C8: simplex mode\<close>

text \<open>
  C8: with \<open>simplex_mode\<close> set, the list of split finders that the node builds is the
  single finder PORE_ADAPTER, so on every queue of messages the node's output (or abort)
  is that of the worker run with PORE_ADAPTER alone: PORE_FLANK, PORE_ALL, ADAPTER_FLANK and
  ADAPTER_MIDDLE are not applied.
\<close>

theorem C8_simplex_only_pore_adapter:
  assumes "simplex_mode m_settings"
  shows "build_split_finders l m_settings = [(''PORE_ADAPTER'', PORE_ADAPTER l m_settings)]
         \<and> DuplexSplitNode_worker l m_settings queue
             = worker_thread l m_settings [(''PORE_ADAPTER'', PORE_ADAPTER l m_settings)] queue []"
  using assms by (simp add: build_split_finders_def DuplexSplitNode_worker_def)


theorem C8_simplex_witness:
  "simplex_mode (settings0\<lparr>simplex_mode := True\<rparr>)
   \<and> map fst (build_split_finders libs0 (settings0\<lparr>simplex_mode := True\<rparr>)) = [''PORE_ADAPTER'']"
  using C8_simplex_only_pore_adapter [of "settings0\<lparr>simplex_mode := True\<rparr>" libs0]
  by simp

lemma plain_read_ext: "ExtRead_new read_plain = Inr ext_plain"
  by (simp add: ExtRead_new_def move_cum_sums_def Let_def read_plain_def ext_plain_def)

lemma plain_read_pore_regions:
  "0 \<le> thr \<Longrightarrow> possible_pore_regions settings0 ext_plain thr = Inr []"
  by (simp add: possible_pore_regions_def detect_pore_signal_def detect_step_def settings0_def
      read0_def read_plain_def ext_plain_def upt_rec)

lemma plain_read_no_spacers:
  "\<forall>f \<in> set (build_split_finders libs0 settings0). snd f ext_plain = Inr []"
proof -
  have thr: "(0::real) \<le> pore_thr settings0" "(0::real) \<le> relaxed_pore_thr settings0"
    by (simp_all add: settings0_def)
  have a: "PORE_ADAPTER libs0 settings0 ext_plain = Inr []"
    by (simp add: PORE_ADAPTER_def plain_read_pore_regions [OF thr(1)])
  have b: "PORE_FLANK libs0 settings0 ext_plain = Inr []"
    by (simp add: PORE_FLANK_def plain_read_pore_regions [OF thr(1)] merge_ranges_def)
  have c: "PORE_ALL libs0 settings0 ext_plain = Inr []"
    by (simp add: PORE_ALL_def plain_read_pore_regions [OF thr(2)] merge_ranges_def)
  have d: "ADAPTER_FLANK libs0 settings0 ext_plain = Inr []"
    by (simp add: ADAPTER_FLANK_def find_adapter_matches_def find_best_adapter_match_def
        settings0_def libs0_def read0_def read_plain_def ext_plain_def EDLIB_STATUS_OK_def
        Let_def)
  have e: "ADAPTER_MIDDLE libs0 settings0 ext_plain = Inr []"
    by (simp add: ADAPTER_MIDDLE_def identify_extra_middle_split_def settings0_def read0_def
        read_plain_def ext_plain_def u64_def Let_def)
  have "\<not> simplex_mode settings0" by (simp add: settings0_def)
  with a b c d e show ?thesis by (simp add: build_split_finders_def)
qed

theorem C7_no_spacers_witness:
  "enabled settings0
   \<and> ExtRead_new read_plain = Inr ext_plain
   \<and> worker_thread libs0 settings0 (build_split_finders libs0 settings0) [MsgRead read_plain] []
       = Inr [MsgRead (read_plain\<lparr>parent_read_id := ''r1''\<rparr>)]"
proof -
  have en: "enabled settings0" by (simp add: settings0_def)
  have "read_id read_plain = ''r1''" by (simp add: read_plain_def read0_def)
  with C7_no_spacers_one_read_stamped [OF en plain_read_ext plain_read_no_spacers, of libs0] en
    plain_read_ext
  show ?thesis by simp
qed


section \<open>Properties of the split finders\<close>

lemma cum_sums_from_bound: "x \<in> set (cum_sums_from p mvs) \<Longrightarrow> x \<le> p + sum_list mvs"
proof (induction mvs arbitrary: p)
  case Nil
  then show ?case by simp
next
  case (Cons m ms)
  from Cons.prems have "x = p + m \<or> x \<in> set (cum_sums_from (p + m) ms)" by simp
  then show ?case
  proof
    assume "x = p + m"
    then show ?thesis by simp
  next
    assume "x \<in> set (cum_sums_from (p + m) ms)"
    then have "x \<le> p + m + sum_list ms" by (rule Cons.IH)
    then show ?thesis by simp
  qed
qed

lemma pore_regions_loop_wellformed:
  assumes "pore_regions_loop ext regions acc = Inr out"
    and "\<forall>x \<in> set acc. fst x < snd x \<and> snd x \<le> n"
    and "\<forall>x \<in> set (er_move_sums ext). x \<le> n"
  shows "\<forall>x \<in> set out. fst x < snd x \<and> snd x \<le> n"
  using assms(1,2)
proof (induction regions arbitrary: acc)
  case Nil
  then show ?case by simp
next
  case (Cons g gs)
  let ?a = "fst g div model_stride (er_read ext)" and ?b = "snd g div model_stride (er_read ext)"
  show ?case
  proof (cases "?a \<ge> length (er_move_sums ext) \<or> ?b \<ge> length (er_move_sums ext)
                 \<or> er_move_sums ext ! ?a = 0")
    case True
    with Cons.prems(1) have "pore_regions_loop ext gs acc = Inr out"
      by (simp add: Let_def split: if_splits)
    from Cons.IH [OF this Cons.prems(2)] show ?thesis .
  next
    case False
    with Cons.prems(1) have lt: "er_move_sums ext ! ?a - 1 < er_move_sums ext ! ?b"
      and rest: "pore_regions_loop ext gs
                   (acc @ [(er_move_sums ext ! ?a - 1, er_move_sums ext ! ?b)]) = Inr out"
      by (simp_all add: Let_def split: if_splits)
    from False have "er_move_sums ext ! ?b \<in> set (er_move_sums ext)" by simp
    with assms(3) have "er_move_sums ext ! ?b \<le> n" by blast
    with lt Cons.prems(2)
    have "\<forall>x \<in> set (acc @ [(er_move_sums ext ! ?a - 1, er_move_sums ext ! ?b)]).
            fst x < snd x \<and> snd x \<le> n" by simp
    from Cons.IH [OF rest this] show ?thesis .
  qed
qed

text \<open>
  What does hold of the pore regions: every range that \<open>possible_pore_regions\<close> returns for
  the extended read of a read is nonempty and ends within the sequence.
\<close>

lemma possible_pore_regions_wellformed:
  assumes "ExtRead_new r = Inr ext" and "possible_pore_regions m_settings ext thr = Inr regions"
  shows "\<forall>x \<in> set regions. fst x < snd x \<and> snd x \<le> length (seq r)"
proof -
  from assms(1) have ms: "er_move_sums ext = move_cum_sums (moves r)"
    and ne: "moves r \<noteq> []" and l: "last (move_cum_sums (moves r)) = length (seq r)"
    by (auto simp: ExtRead_new_def Let_def move_cum_sums_def cum_sums_from_Nil split: if_splits)
  from ne l have "sum_list (moves r) = length (seq r)"
    using last_cum_sums_from [of "moves r" 0] by (simp add: move_cum_sums_def)
  then have bound: "\<forall>x \<in> set (er_move_sums ext). x \<le> length (seq r)"
    using cum_sums_from_bound [of _ 0 "moves r"] by (auto simp: ms move_cum_sums_def)
  from assms(2) obtain sig where "pore_regions_loop ext sig [] = Inr regions"
    by (auto simp: possible_pore_regions_def split: sum.splits)
  from pore_regions_loop_wellformed [OF this _ bound] show ?thesis by simp
qed


lemma two_pores_ext: "ExtRead_new read_two_pores = Inr ext_two_pores"
  by (simp add: ExtRead_new_def move_cum_sums_def Let_def read_two_pores_def ext_two_pores_def)

lemma two_pores_detect:
  "detect_pore_signal [0, 1, 0, 1, 0, 0 :: real] (1 / 2) 0 0 = Inr [(1, 2), (3, 4)]"
  by (simp add: detect_pore_signal_def detect_step_def u64_def upt_rec)

lemma two_pores_regions:
  "possible_pore_regions settings_half ext_two_pores (pore_thr settings_half)
     = Inr [(0, 1), (0, 1)]"
proof -
  have "possible_pore_regions settings_half ext_two_pores (pore_thr settings_half)
          = pore_regions_loop ext_two_pores [(1, 2), (3, 4)] []"
    using two_pores_detect
    by (simp add: possible_pore_regions_def settings_half_def settings0_def ext_two_pores_def
        read_two_pores_def read0_def)
  also have "\<dots> = Inr [(0, 1), (0, 1)]"
    by (simp add: ext_two_pores_def read_two_pores_def read0_def Let_def)
  finally show ?thesis .
qed

lemma two_pores_nearby:
  assumes "lib_edlibAlign l ''AC'' ''AC'' 0 EDLIB_TASK_LOC
             = \<lparr>status = 0, editDistance = 0, startLocation = 0, endLocation = 1\<rparr>"
  shows "check_nearby_adapter l settings_half read_two_pores (0, 1) 0 = Inr True"
  using assms
  by (simp add: check_nearby_adapter_def find_best_adapter_match_def settings_half_def
      settings0_def read_two_pores_def read0_def u64_def EDLIB_STATUS_OK_def Let_def)

lemma two_pores_split: "split l read_two_pores [(0, 1), (0, 1)] = Inl UndefinedBehaviour"
proof -
  have m: "seq_to_sig read_two_pores = [0, 5, 6]"
    by (simp add: seq_to_sig_def moves_to_map_def read_two_pores_def read0_def upt_rec)
  have first: "\<exists>sr. subread l read_two_pores (0, 0) (0, 0) = Inr sr"
    by (simp add: subread_def read_two_pores_def read0_def copy_read_def Let_def
        adjust_time_ms_canonical_000 substr_def u64_def)
  have second: "subread l read_two_pores (1, 0) (5, 0) = Inl UndefinedBehaviour"
    by (simp add: subread_def read_two_pores_def read0_def copy_read_def Let_def
        adjust_time_ms_canonical_000 substr_def u64_def)
  from first obtain sr where sr: "subread l read_two_pores (0, 0) (0, 0) = Inr sr" by blast
  show ?thesis
    unfolding split_def seq_to_sig_def [symmetric] m
    using sr second by (simp add: vec_at_def Let_def)
qed


subsection \<open>Claim C9: well-formed spacer lists\<close>

text \<open>
  C9 fails on the code for PORE_ADAPTER, the one pore finder that does not pass its ranges
  through \<open>merge_ranges\<close> (PORE_FLANK and PORE_ALL do). Two pore clusters further apart than
  \<open>pore_cl_dist\<close> with no base emitted between them map to the same bases: for the read
  with samples above the threshold at 1 and 3 and bases emitted at strides 0 and 5,
  \<open>possible_pore_regions\<close> returns the range \<open>[0, 1)\<close> twice; when the aligner finds the
  adapter next to it, PORE_ADAPTER returns both, a list that is not disjoint; and \<open>split\<close>
  on that list calls \<open>subread\<close> with the reversed ranges \<open>{1, 0}\<close> and \<open>{5, 0}\<close>, where the
  move vector is built from a reversed pair of iterators. (Lemma
  \<open>possible_pore_regions_wellformed\<close>: the pore regions are nonempty and end within the
  sequence.)
\<close>

theorem C9_pore_adapter_overlapping_spacers:
  "read_ok read_two_pores
   \<and> ExtRead_new read_two_pores = Inr ext_two_pores
   \<and> possible_pore_regions settings_half ext_two_pores (pore_thr settings_half)
       = Inr [(0, 1), (0, 1)]
   \<and> (lib_edlibAlign l ''AC'' ''AC'' 0 EDLIB_TASK_LOC
         = \<lparr>status = 0, editDistance = 0, startLocation = 0, endLocation = 1\<rparr>
       \<longrightarrow> PORE_ADAPTER l settings_half ext_two_pores = Inr [(0, 1), (0, 1)])
   \<and> \<not> sorted_wrt (\<lambda>a b. snd a \<le> fst b) [(0 :: nat, 1 :: nat), (0, 1)]
   \<and> split l read_two_pores [(0, 1), (0, 1)] = Inl UndefinedBehaviour"
proof -
  have ok: "read_ok read_two_pores"
    by (simp add: read_ok_def read_two_pores_def read0_def)
  have er: "er_read ext_two_pores = read_two_pores" by (simp add: ext_two_pores_def)
  have ed: "adapter_edist settings_half = 0" by (simp add: settings_half_def settings0_def)
  have pa: "PORE_ADAPTER l settings_half ext_two_pores = Inr [(0, 1), (0, 1)]"
    if "lib_edlibAlign l ''AC'' ''AC'' 0 EDLIB_TASK_LOC
         = \<lparr>status = 0, editDistance = 0, startLocation = 0, endLocation = 1\<rparr>"
    unfolding PORE_ADAPTER_def two_pores_regions er ed
    using two_pores_nearby [OF that] by simp
  from ok two_pores_ext two_pores_regions pa two_pores_split [of l] show ?thesis by simp
qed

theorem C9_pore_adapter_witness:
  "lib_edlibAlign libs_match ''AC'' ''AC'' 0 EDLIB_TASK_LOC
     = \<lparr>status = 0, editDistance = 0, startLocation = 0, endLocation = 1\<rparr>
   \<and> PORE_ADAPTER libs_match settings_half ext_two_pores = Inr [(0, 1), (0, 1)]"
proof -
  have h: "lib_edlibAlign libs_match ''AC'' ''AC'' 0 EDLIB_TASK_LOC
     = \<lparr>status = 0, editDistance = 0, startLocation = 0, endLocation = 1\<rparr>"
    by (simp add: libs_match_def libs0_def)
  with C9_pore_adapter_overlapping_spacers [of libs_match] show ?thesis by blast
qed



end
